theory Spec2Isabelle
  imports Main "HOL-Library.Word" "HOL-Library.Monad_Syntax"
begin

section \<open>The piece table of editor.c: memory model\<close>

text \<open>
  The editor is a C program over a mutable heap, so the embedding keeps an explicit
  store. Pointers to structs are addresses (\<open>0\<close> is \<open>NULL\<close>) into one typed heap per
  struct: an address that the heap maps to \<open>None\<close> is unallocated or freed.
  \<open>size_t\<close> values and \<open>char *\<close> pointers are 64-bit words (LP64), so \<open>+\<close> and \<open>-\<close>
  wrap around as in C. The bytes that \<open>char *\<close> pointers address live in one flat
  memory \<open>mem\<close>.

  Every operation returns an \<open>option\<close>: \<open>None\<close> says that the C program has no
  result there, because it dereferences a null or freed pointer or because a loop
  over a cyclic chain never ends.

  \<open>calloc\<close> and \<open>malloc\<close> can fail. The field \<open>alloc_plan\<close> lists the outcomes of the
  coming allocation requests in order (an exhausted list means success); blocks are
  handed out at the fresh address \<open>next_addr\<close>, byte regions at \<open>brk\<close>, and no
  address is handed out twice.
\<close>

type_synonym addr = nat
type_synonym size_t = "64 word"
type_synonym ptr = "64 word"

record Buffer =
  b_size :: size_t
  b_pos :: size_t
  b_content :: ptr
  b_next :: addr

record Piece =
  p_editor :: addr
  p_prev :: addr
  p_next :: addr
  p_global_prev :: addr
  p_global_next :: addr
  p_content :: ptr
  p_len :: size_t
  p_index :: int

record Location =
  l_piece :: addr
  l_off :: size_t

record Span =
  s_start :: addr
  s_end :: addr
  s_len :: size_t

record Change =
  c_old :: Span
  c_new :: Span
  c_next :: addr

record Action =
  a_change :: addr
  a_next :: addr
  a_time :: nat

text \<open>
  \<open>struct Editor\<close> together with the memory it owns. The two sentinel pieces
  \<open>ed->begin\<close> and \<open>ed->end\<close> are embedded in the struct; their addresses are the
  constants \<open>ed_begin\<close> and \<open>ed_end\<close> of the piece heap. \<open>filename\<close>, \<open>info\<close> and
  \<open>fd\<close> are only used by the file plumbing of load and save and are left out;
  \<open>clock\<close> is what \<open>time(NULL)\<close> returns.
\<close>

record Editor =
  buf :: Buffer
  buffers :: addr
  pieces :: addr
  cache :: addr
  piece_count :: int
  ed_redo :: addr
  ed_undo :: addr
  current_action :: addr
  saved_action :: addr
  ed_size :: size_t
  heap_buffer :: "addr \<Rightarrow> Buffer option"
  heap_piece :: "addr \<Rightarrow> Piece option"
  heap_change :: "addr \<Rightarrow> Change option"
  heap_action :: "addr \<Rightarrow> Action option"
  mem :: "ptr \<Rightarrow> char"
  alloc_plan :: "bool list"
  next_addr :: addr
  brk :: ptr
  clock :: nat

definition this_editor :: addr where
  "this_editor = 1"

definition ed_begin :: addr where
  "ed_begin = 1"

definition ed_end :: addr where
  "ed_end = 2"

definition BUFFER_SIZE :: size_t where
  "BUFFER_SIZE = push_bit 20 1"

subsection \<open>Dereferencing\<close>

definition get_buffer :: "Editor \<Rightarrow> addr \<Rightarrow> Buffer option" where
  "get_buffer ed b = (if b = 0 then None else heap_buffer ed b)"

definition get_piece :: "Editor \<Rightarrow> addr \<Rightarrow> Piece option" where
  "get_piece ed p = (if p = 0 then None else heap_piece ed p)"

definition get_change :: "Editor \<Rightarrow> addr \<Rightarrow> Change option" where
  "get_change ed c = (if c = 0 then None else heap_change ed c)"

definition get_action :: "Editor \<Rightarrow> addr \<Rightarrow> Action option" where
  "get_action ed a = (if a = 0 then None else heap_action ed a)"

definition set_buffer :: "Editor \<Rightarrow> addr \<Rightarrow> (Buffer \<Rightarrow> Buffer) \<Rightarrow> Editor option" where
  "set_buffer ed b f =
     (case get_buffer ed b of None \<Rightarrow> None
      | Some v \<Rightarrow> Some (ed\<lparr>heap_buffer := (heap_buffer ed)(b \<mapsto> f v)\<rparr>))"

definition set_piece :: "Editor \<Rightarrow> addr \<Rightarrow> (Piece \<Rightarrow> Piece) \<Rightarrow> Editor option" where
  "set_piece ed p f =
     (case get_piece ed p of None \<Rightarrow> None
      | Some v \<Rightarrow> Some (ed\<lparr>heap_piece := (heap_piece ed)(p \<mapsto> f v)\<rparr>))"

definition set_change :: "Editor \<Rightarrow> addr \<Rightarrow> (Change \<Rightarrow> Change) \<Rightarrow> Editor option" where
  "set_change ed c f =
     (case get_change ed c of None \<Rightarrow> None
      | Some v \<Rightarrow> Some (ed\<lparr>heap_change := (heap_change ed)(c \<mapsto> f v)\<rparr>))"

definition set_action :: "Editor \<Rightarrow> addr \<Rightarrow> (Action \<Rightarrow> Action) \<Rightarrow> Editor option" where
  "set_action ed a f =
     (case get_action ed a of None \<Rightarrow> None
      | Some v \<Rightarrow> Some (ed\<lparr>heap_action := (heap_action ed)(a \<mapsto> f v)\<rparr>))"

subsection \<open>Allocation and raw bytes\<close>

definition alloc_ok :: "Editor \<Rightarrow> bool \<times> Editor" where
  "alloc_ok ed = (case alloc_plan ed of [] \<Rightarrow> (True, ed) | b # bs \<Rightarrow> (b, ed\<lparr>alloc_plan := bs\<rparr>))"

definition calloc :: "Editor \<Rightarrow> addr \<times> Editor" where
  "calloc ed =
     (case alloc_ok ed of (ok, ed1) \<Rightarrow>
        if ok then (next_addr ed1, ed1\<lparr>next_addr := Suc (next_addr ed1)\<rparr>) else (0, ed1))"

definition malloc :: "Editor \<Rightarrow> size_t \<Rightarrow> ptr \<times> Editor" where
  "malloc ed n =
     (case alloc_ok ed of (ok, ed1) \<Rightarrow>
        if ok then (brk ed1, ed1\<lparr>brk := brk ed1 + n\<rparr>) else (0, ed1))"

definition store_bytes :: "(ptr \<Rightarrow> char) \<Rightarrow> ptr \<Rightarrow> string \<Rightarrow> (ptr \<Rightarrow> char)" where
  "store_bytes m dest bs = (\<lambda>a. if unat (a - dest) < length bs then bs ! unat (a - dest) else m a)"

definition load_bytes :: "(ptr \<Rightarrow> char) \<Rightarrow> ptr \<Rightarrow> nat \<Rightarrow> string" where
  "load_bytes m src n = map (\<lambda>i. m (src + of_nat i)) [0..<n]"

definition strlen :: "string \<Rightarrow> size_t" where
  "strlen text = of_nat (length text)"

section \<open>Buffers\<close>

definition buffer_alloc :: "Editor \<Rightarrow> size_t \<Rightarrow> addr \<times> Editor" where
  "buffer_alloc ed sz =
     (case calloc ed of (b, ed1) \<Rightarrow>
        if b = 0 then (0, ed1)
        else let sz' = (if BUFFER_SIZE > sz then BUFFER_SIZE else sz) in
          (case malloc ed1 sz' of (c, ed2) \<Rightarrow>
             if c = 0 then (0, ed2)
             else (b, ed2\<lparr>heap_buffer := (heap_buffer ed2)
                      (b \<mapsto> \<lparr>b_size = sz', b_pos = 0, b_content = c, b_next = buffers ed2\<rparr>),
                    buffers := b\<rparr>)))"

definition buffer_capacity :: "Editor \<Rightarrow> addr \<Rightarrow> size_t \<Rightarrow> bool option" where
  "buffer_capacity ed b len = do {
     v \<leftarrow> get_buffer ed b;
     Some (b_size v - b_pos v \<ge> len)
   }"

definition buffer_append :: "Editor \<Rightarrow> addr \<Rightarrow> string \<Rightarrow> size_t \<Rightarrow> (ptr \<times> Editor) option" where
  "buffer_append ed b text len = do {
     v \<leftarrow> get_buffer ed b;
     let dest = b_content v + b_pos v;
     let ed1 = ed\<lparr>mem := store_bytes (mem ed) dest (take (unat len) text)\<rparr>;
     ed2 \<leftarrow> set_buffer ed1 b (\<lambda>v. v\<lparr>b_pos := b_pos v + len\<rparr>);
     Some (dest, ed2)
   }"

definition buffer_store :: "Editor \<Rightarrow> string \<Rightarrow> size_t \<Rightarrow> (ptr \<times> Editor) option" where
  "buffer_store ed text len = do {
     let b = buffers ed;
     full \<leftarrow> (if b = 0 then Some True else map_option Not (buffer_capacity ed b len));
     if full then
       (case buffer_alloc ed len of (b', ed1) \<Rightarrow>
          if b' = 0 then Some (0, ed1) else buffer_append ed1 b' text len)
     else buffer_append ed b text len
   }"

definition buffer_insert :: "Editor \<Rightarrow> addr \<Rightarrow> size_t \<Rightarrow> string \<Rightarrow> size_t \<Rightarrow> (bool \<times> Editor) option" where
  "buffer_insert ed b pos text len = do {
     v \<leftarrow> get_buffer ed b;
     if pos > b_pos v \<or> \<not> (b_size v - b_pos v \<ge> len) then Some (False, ed)
     else if b_pos v = pos then do {
       (dest, ed1) \<leftarrow> buffer_append ed b text len;
       Some (dest \<noteq> 0, ed1)
     }
     else do {
       let ins = b_content v + pos;
       let m1 = store_bytes (mem ed) (ins + len) (load_bytes (mem ed) ins (unat (b_pos v - pos)));
       let m2 = store_bytes m1 ins (take (unat len) text);
       ed1 \<leftarrow> set_buffer (ed\<lparr>mem := m2\<rparr>) b (\<lambda>v. v\<lparr>b_pos := b_pos v + len\<rparr>);
       Some (True, ed1)
     }
   }"

definition buffer_delete :: "Editor \<Rightarrow> addr \<Rightarrow> size_t \<Rightarrow> size_t \<Rightarrow> (bool \<times> Editor) option" where
  "buffer_delete ed b pos len = do {
     v \<leftarrow> get_buffer ed b;
     if pos + len > b_pos v then Some (False, ed)
     else if b_pos v = pos then do {
       ed1 \<leftarrow> set_buffer ed b (\<lambda>v. v\<lparr>b_pos := b_pos v - len\<rparr>);
       Some (True, ed1)
     }
     else do {
       let del = b_content v + pos;
       let m1 = store_bytes (mem ed) del (load_bytes (mem ed) (del + len) (unat (b_pos v - pos - len)));
       ed1 \<leftarrow> set_buffer (ed\<lparr>mem := m1\<rparr>) b (\<lambda>v. v\<lparr>b_pos := b_pos v - len\<rparr>);
       Some (True, ed1)
     }
   }"

section \<open>The cache layer\<close>

definition cache_piece :: "Editor \<Rightarrow> addr \<Rightarrow> Editor option" where
  "cache_piece ed p =
     (let b = buffers ed in
      if b = 0 then Some ed
      else do {
        pc \<leftarrow> get_piece ed p;
        v \<leftarrow> get_buffer ed b;
        if p_content pc < b_content v \<or> p_content pc + p_len pc \<noteq> b_content v + b_pos v
        then Some ed
        else Some (ed\<lparr>cache := p\<rparr>)
      })"

text \<open>
  The loop of \<open>cache_contains\<close>, entered with \<open>found = false\<close>: the body sets
  \<open>found\<close>, breaks at \<open>end\<close>, and otherwise steps to \<open>cur->next\<close> before the
  condition \<open>!found\<close> is tested again.
\<close>

partial_function (option) cache_contains_loop :: "Editor \<Rightarrow> addr \<Rightarrow> addr \<Rightarrow> addr \<Rightarrow> bool option" where
  "cache_contains_loop ed p end cur =
     (if cur = end then Some (cur = p)
      else case get_piece ed cur of None \<Rightarrow> None
        | Some pc \<Rightarrow> if cur = p then Some True else cache_contains_loop ed p end (p_next pc))"

definition cache_contains :: "Editor \<Rightarrow> addr \<Rightarrow> bool option" where
  "cache_contains ed p =
     (let b = buffers ed; a = current_action ed in
      if b = 0 \<or> cache ed = 0 \<or> cache ed \<noteq> p \<or> a = 0 then Some False
      else do {
        av \<leftarrow> get_action ed a;
        if a_change av = 0 then Some False
        else do {
          cv \<leftarrow> get_change ed (a_change av);
          let start = s_start (c_new cv);
          let end = s_start (c_new cv);
          found \<leftarrow> cache_contains_loop ed p end start;
          if \<not> found then Some False
          else do {
            pc \<leftarrow> get_piece ed p;
            v \<leftarrow> get_buffer ed b;
            Some (p_content pc + p_len pc = b_content v + b_pos v)
          }
        }
      })"

definition cache_insert :: "Editor \<Rightarrow> addr \<Rightarrow> size_t \<Rightarrow> string \<Rightarrow> size_t \<Rightarrow> (bool \<times> Editor) option" where
  "cache_insert ed p off text len = do {
     hit \<leftarrow> cache_contains ed p;
     if \<not> hit then Some (False, ed)
     else do {
       let b = buffers ed;
       pc \<leftarrow> get_piece ed p;
       v \<leftarrow> get_buffer ed b;
       let bufpos = p_content pc + off - b_content v;
       (ok, ed1) \<leftarrow> buffer_insert ed b bufpos text len;
       if \<not> ok then Some (False, ed1)
       else do {
         ed2 \<leftarrow> set_piece ed1 p (\<lambda>q. q\<lparr>p_len := p_len q + len\<rparr>);
         av \<leftarrow> get_action ed2 (current_action ed2);
         ed3 \<leftarrow> set_change ed2 (a_change av)
                  (\<lambda>c. c\<lparr>c_new := (c_new c)\<lparr>s_len := s_len (c_new c) + len\<rparr>\<rparr>);
         Some (True, ed3\<lparr>ed_size := ed_size ed3 + len\<rparr>)
       }
     }
   }"

definition cache_delete :: "Editor \<Rightarrow> addr \<Rightarrow> size_t \<Rightarrow> size_t \<Rightarrow> (bool \<times> Editor) option" where
  "cache_delete ed p off len = do {
     hit \<leftarrow> cache_contains ed p;
     if \<not> hit then Some (False, ed)
     else do {
       let b = buffers ed;
       pc \<leftarrow> get_piece ed p;
       v \<leftarrow> get_buffer ed b;
       let bufpos = p_content pc + off - b_content v;
       if off + len > p_len pc then Some (False, ed)
       else do {
         (ok, ed1) \<leftarrow> buffer_delete ed b bufpos len;
         if \<not> ok then Some (False, ed1)
         else do {
           ed2 \<leftarrow> set_piece ed1 p (\<lambda>q. q\<lparr>p_len := p_len q - len\<rparr>);
           av \<leftarrow> get_action ed2 (current_action ed2);
           ed3 \<leftarrow> set_change ed2 (a_change av)
                    (\<lambda>c. c\<lparr>c_new := (c_new c)\<lparr>s_len := s_len (c_new c) - len\<rparr>\<rparr>);
           Some (True, ed3\<lparr>ed_size := ed_size ed3 - len\<rparr>)
         }
       }
     }
   }"

section \<open>Pieces and spans\<close>

definition piece_alloc :: "Editor \<Rightarrow> (addr \<times> Editor) option" where
  "piece_alloc ed =
     (case calloc ed of (p, ed1) \<Rightarrow>
        if p = 0 then Some (0, ed1)
        else do {
          let idx = piece_count ed1 + 1;
          let pc = \<lparr>p_editor = this_editor, p_prev = 0, p_next = 0, p_global_prev = 0,
                     p_global_next = pieces ed1, p_content = 0, p_len = 0, p_index = idx\<rparr>;
          let ed2 = ed1\<lparr>piece_count := idx, heap_piece := (heap_piece ed1)(p \<mapsto> pc)\<rparr>;
          ed3 \<leftarrow> (if pieces ed2 \<noteq> 0
                  then set_piece ed2 (pieces ed2) (\<lambda>q. q\<lparr>p_global_prev := p\<rparr>)
                  else Some ed2);
          Some (p, ed3\<lparr>pieces := p\<rparr>)
        })"

definition piece_free :: "Editor \<Rightarrow> addr \<Rightarrow> Editor option" where
  "piece_free ed p =
     (if p = 0 then Some ed
      else do {
        pc \<leftarrow> get_piece ed p;
        ed1 \<leftarrow> (if p_global_prev pc \<noteq> 0
                then set_piece ed (p_global_prev pc) (\<lambda>q. q\<lparr>p_global_next := p_global_next pc\<rparr>)
                else Some ed);
        pc1 \<leftarrow> get_piece ed1 p;
        ed2 \<leftarrow> (if p_global_next pc1 \<noteq> 0
                then set_piece ed1 (p_global_next pc1) (\<lambda>q. q\<lparr>p_global_prev := p_global_prev pc1\<rparr>)
                else Some ed1);
        pc2 \<leftarrow> get_piece ed2 p;
        if p_editor pc2 \<noteq> this_editor then None
        else do {
          let ed3 = (if pieces ed2 = p then ed2\<lparr>pieces := p_global_next pc2\<rparr> else ed2);
          let ed4 = (if cache ed3 = p then ed3\<lparr>cache := 0\<rparr> else ed3);
          Some (ed4\<lparr>heap_piece := (heap_piece ed4)(p := None)\<rparr>)
        }
      })"

definition piece_init :: "Editor \<Rightarrow> addr \<Rightarrow> addr \<Rightarrow> addr \<Rightarrow> ptr \<Rightarrow> size_t \<Rightarrow> Editor option" where
  "piece_init ed p prev next content len =
     set_piece ed p (\<lambda>q. q\<lparr>p_prev := prev, p_next := next, p_content := content, p_len := len\<rparr>)"

partial_function (option) piece_get_loop :: "Editor \<Rightarrow> size_t \<Rightarrow> addr \<Rightarrow> size_t \<Rightarrow> Location option" where
  "piece_get_loop ed pos p cur =
     (case get_piece ed p of None \<Rightarrow> None
      | Some pc \<Rightarrow>
          if p_next pc = 0 then Some \<lparr>l_piece = 0, l_off = 0\<rparr>
          else if cur \<le> pos \<and> pos \<le> cur + p_len pc then Some \<lparr>l_piece = p, l_off = pos - cur\<rparr>
          else piece_get_loop ed pos (p_next pc) (cur + p_len pc))"

definition piece_get :: "Editor \<Rightarrow> size_t \<Rightarrow> Location option" where
  "piece_get ed pos = piece_get_loop ed pos ed_begin 0"

partial_function (option) span_init_loop :: "Editor \<Rightarrow> addr \<Rightarrow> addr \<Rightarrow> size_t \<Rightarrow> size_t option" where
  "span_init_loop ed end p len =
     (if p = 0 then Some len
      else case get_piece ed p of None \<Rightarrow> None
        | Some pc \<Rightarrow>
            if p = end then Some (len + p_len pc)
            else span_init_loop ed end (p_next pc) (len + p_len pc))"

definition span_init :: "Editor \<Rightarrow> addr \<Rightarrow> addr \<Rightarrow> Span option" where
  "span_init ed start end =
     map_option (\<lambda>l. \<lparr>s_start = start, s_end = end, s_len = l\<rparr>) (span_init_loop ed end start 0)"

definition span_swap :: "Editor \<Rightarrow> Span \<Rightarrow> Span \<Rightarrow> Editor option" where
  "span_swap ed old new =
     (if s_len old = 0 \<and> s_len new = 0 then Some ed
      else do {
        ed2 \<leftarrow>
          (if s_len old = 0 then do {
             ns \<leftarrow> get_piece ed (s_start new);
             ed1 \<leftarrow> set_piece ed (p_prev ns) (\<lambda>q. q\<lparr>p_next := s_start new\<rparr>);
             ne \<leftarrow> get_piece ed1 (s_end new);
             set_piece ed1 (p_next ne) (\<lambda>q. q\<lparr>p_prev := s_end new\<rparr>)
           }
           else if s_len new = 0 then do {
             os \<leftarrow> get_piece ed (s_start old);
             oe \<leftarrow> get_piece ed (s_end old);
             ed1 \<leftarrow> set_piece ed (p_prev os) (\<lambda>q. q\<lparr>p_next := p_next oe\<rparr>);
             oe1 \<leftarrow> get_piece ed1 (s_end old);
             os1 \<leftarrow> get_piece ed1 (s_start old);
             set_piece ed1 (p_next oe1) (\<lambda>q. q\<lparr>p_prev := p_prev os1\<rparr>)
           }
           else do {
             os \<leftarrow> get_piece ed (s_start old);
             ed1 \<leftarrow> set_piece ed (p_prev os) (\<lambda>q. q\<lparr>p_next := s_start new\<rparr>);
             oe \<leftarrow> get_piece ed1 (s_end old);
             set_piece ed1 (p_next oe) (\<lambda>q. q\<lparr>p_prev := s_end new\<rparr>)
           });
        Some (ed2\<lparr>ed_size := ed_size ed2 - s_len old + s_len new\<rparr>)
      })"

section \<open>Actions and changes\<close>

text \<open>\<open>Action **stack\<close> is \<open>&ed->undo\<close> or \<open>&ed->redo\<close>.\<close>

datatype stack_ref = Undo_stack | Redo_stack

definition stack_get :: "Editor \<Rightarrow> stack_ref \<Rightarrow> addr" where
  "stack_get ed stack = (case stack of Undo_stack \<Rightarrow> ed_undo ed | Redo_stack \<Rightarrow> ed_redo ed)"

definition stack_set :: "Editor \<Rightarrow> stack_ref \<Rightarrow> addr \<Rightarrow> Editor" where
  "stack_set ed stack a =
     (case stack of Undo_stack \<Rightarrow> ed\<lparr>ed_undo := a\<rparr> | Redo_stack \<Rightarrow> ed\<lparr>ed_redo := a\<rparr>)"

definition action_push :: "Editor \<Rightarrow> stack_ref \<Rightarrow> addr \<Rightarrow> Editor option" where
  "action_push ed stack action = do {
     ed1 \<leftarrow> set_action ed action (\<lambda>a. a\<lparr>a_next := stack_get ed stack\<rparr>);
     Some (stack_set ed1 stack action)
   }"

definition action_pop :: "Editor \<Rightarrow> stack_ref \<Rightarrow> (addr \<times> Editor) option" where
  "action_pop ed stack =
     (let action = stack_get ed stack in
      if action = 0 then Some (0, ed)
      else do {
        a \<leftarrow> get_action ed action;
        Some (action, stack_set ed stack (a_next a))
      })"

definition change_free :: "Editor \<Rightarrow> addr \<Rightarrow> Editor option" where
  "change_free ed c = do {
     cv \<leftarrow> get_change ed c;
     ed1 \<leftarrow> piece_free ed (s_start (c_new cv));
     cv1 \<leftarrow> get_change ed1 c;
     ed2 \<leftarrow> (if s_start (c_new cv1) \<noteq> s_end (c_new cv1)
             then piece_free ed1 (s_end (c_new cv1)) else Some ed1);
     Some (ed2\<lparr>heap_change := (heap_change ed2)(c := None)\<rparr>)
   }"

partial_function (option) action_free_loop :: "Editor \<Rightarrow> addr \<Rightarrow> Editor option" where
  "action_free_loop ed c =
     (if c = 0 then Some ed
      else case get_change ed c of None \<Rightarrow> None
        | Some cv \<Rightarrow>
            (case change_free ed c of None \<Rightarrow> None
             | Some ed1 \<Rightarrow> action_free_loop ed1 (c_next cv)))"

definition action_free :: "Editor \<Rightarrow> addr \<Rightarrow> Editor option" where
  "action_free ed a =
     (if a = 0 then Some ed
      else do {
        av \<leftarrow> get_action ed a;
        ed1 \<leftarrow> action_free_loop ed (a_change av);
        Some (ed1\<lparr>heap_action := (heap_action ed1)(a := None)\<rparr>)
      })"

text \<open>\<open>while ((old = action_pop(&ed->redo))) action_free(old);\<close>\<close>

partial_function (option) action_alloc_loop :: "Editor \<Rightarrow> Editor option" where
  "action_alloc_loop ed =
     (case action_pop ed Redo_stack of None \<Rightarrow> None
      | Some r \<Rightarrow>
          if fst r = 0 then Some (snd r)
          else (case action_free (snd r) (fst r) of None \<Rightarrow> None
                | Some ed2 \<Rightarrow> action_alloc_loop ed2))"

definition action_alloc :: "Editor \<Rightarrow> (addr \<times> Editor) option" where
  "action_alloc ed =
     (case calloc ed of (new, ed1) \<Rightarrow>
        if new = 0 then Some (0, ed1)
        else do {
          let ed2 = ed1\<lparr>heap_action := (heap_action ed1)
                      (new \<mapsto> \<lparr>a_change = 0, a_next = 0, a_time = clock ed1\<rparr>)\<rparr>;
          ed3 \<leftarrow> action_alloc_loop ed2;
          ed4 \<leftarrow> action_push (ed3\<lparr>current_action := new\<rparr>) Undo_stack new;
          Some (new, ed4)
        })"

definition change_alloc :: "Editor \<Rightarrow> (addr \<times> Editor) option" where
  "change_alloc ed = do {
     (a, ed1) \<leftarrow> (if current_action ed = 0 then action_alloc ed
                   else Some (current_action ed, ed));
     if a = 0 then Some (0, ed1)
     else (case calloc ed1 of (c, ed2) \<Rightarrow>
        if c = 0 then Some (0, ed2)
        else do {
          av \<leftarrow> get_action ed2 a;
          let zero = \<lparr>s_start = 0, s_end = 0, s_len = 0\<rparr>;
          let ed3 = ed2\<lparr>heap_change := (heap_change ed2)
                      (c \<mapsto> \<lparr>c_old = zero, c_new = zero, c_next = a_change av\<rparr>)\<rparr>;
          ed4 \<leftarrow> set_action ed3 a (\<lambda>v. v\<lparr>a_change := c\<rparr>);
          Some (c, ed4)
        })
   }"

section \<open>Insert, delete, replace\<close>

definition editor_insert :: "Editor \<Rightarrow> size_t \<Rightarrow> string \<Rightarrow> (bool \<times> Editor) option" where
  "editor_insert ed pos text0 = do {
     let len = strlen text0;
     loc \<leftarrow> piece_get ed pos;
     let p = l_piece loc;
     let off = l_off loc;
     (hit, ed1) \<leftarrow> cache_insert ed p off text0 len;
     if hit then Some (True, ed1)
     else do {
       (c, ed2) \<leftarrow> change_alloc ed1;
       if c = 0 then Some (False, ed2)
       else do {
         (text, ed3) \<leftarrow> buffer_store ed2 text0 len;
         if text = 0 then Some (False, ed3)
         else do {
           pc \<leftarrow> get_piece ed3 p;
           if off = p_len pc then do {
             (new, ed4) \<leftarrow> piece_alloc ed3;
             if new = 0 then Some (False, ed4)
             else do {
               pc \<leftarrow> get_piece ed4 p;
               ed5 \<leftarrow> piece_init ed4 new p (p_next pc) text len;
               sn \<leftarrow> span_init ed5 new new;
               ed6 \<leftarrow> set_change ed5 c (\<lambda>v. v\<lparr>c_new := sn\<rparr>);
               so \<leftarrow> span_init ed6 0 0;
               ed7 \<leftarrow> set_change ed6 c (\<lambda>v. v\<lparr>c_old := so\<rparr>);
               ed8 \<leftarrow> cache_piece ed7 new;
               cv \<leftarrow> get_change ed8 c;
               ed9 \<leftarrow> span_swap ed8 (c_old cv) (c_new cv);
               Some (True, ed9)
             }
           }
           else do {
             (before, ed4) \<leftarrow> piece_alloc ed3;
             (new, ed5) \<leftarrow> piece_alloc ed4;
             (after, ed6) \<leftarrow> piece_alloc ed5;
             if before = 0 \<or> new = 0 \<or> after = 0 then Some (False, ed6)
             else do {
               pc \<leftarrow> get_piece ed6 p;
               ed7 \<leftarrow> piece_init ed6 before (p_prev pc) new (p_content pc) off;
               ed8 \<leftarrow> piece_init ed7 new before after text len;
               pc \<leftarrow> get_piece ed8 p;
               ed9 \<leftarrow> piece_init ed8 after new (p_next pc) (p_content pc + off) (p_len pc - off);
               sn \<leftarrow> span_init ed9 before after;
               ed10 \<leftarrow> set_change ed9 c (\<lambda>v. v\<lparr>c_new := sn\<rparr>);
               so \<leftarrow> span_init ed10 p p;
               ed11 \<leftarrow> set_change ed10 c (\<lambda>v. v\<lparr>c_old := so\<rparr>);
               ed12 \<leftarrow> cache_piece ed11 new;
               cv \<leftarrow> get_change ed12 c;
               ed13 \<leftarrow> span_swap ed12 (c_old cv) (c_new cv);
               Some (True, ed13)
             }
           }
         }
       }
     }
   }"

text \<open>\<open>while (cur < len) { p = p->next; cur += p->len; }\<close>\<close>

partial_function (option) editor_delete_loop :: "Editor \<Rightarrow> size_t \<Rightarrow> addr \<Rightarrow> size_t \<Rightarrow> (addr \<times> size_t) option" where
  "editor_delete_loop ed len p cur =
     (if cur < len then
        (case get_piece ed p of None \<Rightarrow> None
         | Some pc \<Rightarrow>
             (case get_piece ed (p_next pc) of None \<Rightarrow> None
              | Some nx \<Rightarrow> editor_delete_loop ed len (p_next pc) (cur + p_len nx)))
      else Some (p, cur))"

definition editor_delete :: "Editor \<Rightarrow> size_t \<Rightarrow> size_t \<Rightarrow> (bool \<times> Editor) option" where
  "editor_delete ed pos len =
     (if len = 0 then Some (True, ed)
      else if pos + len > ed_size ed then Some (False, ed)
      else do {
        loc \<leftarrow> piece_get ed pos;
        let p0 = l_piece loc;
        let off = l_off loc;
        (hit, ed1) \<leftarrow> cache_delete ed p0 off len;
        if hit then Some (True, ed1)
        else do {
          (c, ed2) \<leftarrow> change_alloc ed1;
          if c = 0 then Some (False, ed2)
          else do {
            pc0 \<leftarrow> get_piece ed2 p0;
            let midway_start = (off \<noteq> p_len pc0);
            (cur0, before, start, ed3) \<leftarrow>
              (if off = p_len pc0 then Some (0, p0, p_next pc0, ed2)
               else do {
                 (b, ed') \<leftarrow> piece_alloc ed2;
                 Some (p_len pc0 - off, b, p0, ed')
               });
            (p, cur) \<leftarrow> editor_delete_loop ed3 len p0 cur0;
            let midway_end = (cur \<noteq> len);
            let end = p;
            (after, ed5) \<leftarrow>
              (if cur = len then do {
                 pc \<leftarrow> get_piece ed3 p;
                 Some (p_next pc, ed3)
               }
               else do {
                 (a, ed4) \<leftarrow> piece_alloc ed3;
                 pc \<leftarrow> get_piece ed4 p;
                 ed' \<leftarrow> piece_init ed4 a before (p_next pc)
                          (p_content pc + p_len pc - (cur - len)) (cur - len);
                 Some (a, ed')
               });
            ed6 \<leftarrow>
              (if midway_start then do {
                 sv \<leftarrow> get_piece ed5 start;
                 piece_init ed5 before (p_prev sv) after (p_content sv) off
               }
               else Some ed5);
            let new_start = (if midway_start then before else if midway_end then after else 0);
            let new_end = (if midway_end then after else if midway_start then before else 0);
            sn \<leftarrow> span_init ed6 new_start new_end;
            ed7 \<leftarrow> set_change ed6 c (\<lambda>v. v\<lparr>c_new := sn\<rparr>);
            so \<leftarrow> span_init ed7 start end;
            ed8 \<leftarrow> set_change ed7 c (\<lambda>v. v\<lparr>c_old := so\<rparr>);
            cv \<leftarrow> get_change ed8 c;
            ed9 \<leftarrow> span_swap ed8 (c_old cv) (c_new cv);
            Some (True, ed9)
          }
        }
      })"

text \<open>\<open>editor_replace\<close> ignores what the two calls return.\<close>

definition editor_replace :: "Editor \<Rightarrow> size_t \<Rightarrow> string \<Rightarrow> (bool \<times> Editor) option" where
  "editor_replace ed pos c = do {
     let len = strlen c;
     (r1, ed1) \<leftarrow> editor_delete ed pos len;
     (r2, ed2) \<leftarrow> editor_insert ed1 pos c;
     Some (True, ed2)
   }"

section \<open>Undo, redo, snapshot\<close>

partial_function (option) editor_undo_loop :: "Editor \<Rightarrow> addr \<Rightarrow> Editor option" where
  "editor_undo_loop ed c =
     (if c = 0 then Some ed
      else case get_change ed c of None \<Rightarrow> None
        | Some cv \<Rightarrow>
            (case span_swap ed (c_new cv) (c_old cv) of None \<Rightarrow> None
             | Some ed1 \<Rightarrow>
                 (case get_change ed1 c of None \<Rightarrow> None
                  | Some cv1 \<Rightarrow> editor_undo_loop ed1 (c_next cv1))))"

definition editor_undo :: "Editor \<Rightarrow> (bool \<times> Editor) option" where
  "editor_undo ed = do {
     (a, ed1) \<leftarrow> action_pop ed Undo_stack;
     if a = 0 then Some (False, ed1)
     else do {
       av \<leftarrow> get_action ed1 a;
       ed2 \<leftarrow> editor_undo_loop ed1 (a_change av);
       ed3 \<leftarrow> action_push ed2 Redo_stack a;
       Some (True, ed3)
     }
   }"

partial_function (option) editor_redo_loop :: "Editor \<Rightarrow> addr \<Rightarrow> Editor option" where
  "editor_redo_loop ed c =
     (if c = 0 then Some ed
      else case get_change ed c of None \<Rightarrow> None
        | Some cv \<Rightarrow>
            (case span_swap ed (c_old cv) (c_new cv) of None \<Rightarrow> None
             | Some ed1 \<Rightarrow>
                 (case get_change ed1 c of None \<Rightarrow> None
                  | Some cv1 \<Rightarrow> editor_redo_loop ed1 (c_next cv1))))"

definition editor_redo :: "Editor \<Rightarrow> (bool \<times> Editor) option" where
  "editor_redo ed = do {
     (a, ed1) \<leftarrow> action_pop ed Redo_stack;
     if a = 0 then Some (False, ed1)
     else do {
       av \<leftarrow> get_action ed1 a;
       ed2 \<leftarrow> editor_redo_loop ed1 (a_change av);
       ed3 \<leftarrow> action_push ed2 Undo_stack a;
       Some (True, ed3)
     }
   }"

definition editor_snapshot :: "Editor \<Rightarrow> Editor" where
  "editor_snapshot ed = ed\<lparr>current_action := 0, cache := 0\<rparr>"

definition editor_modified :: "Editor \<Rightarrow> bool" where
  "editor_modified ed = (saved_action ed \<noteq> ed_undo ed)"

section \<open>Load and iteration\<close>

text \<open>
  \<open>editor_load\<close>: the argument is \<open>None\<close> for a \<open>NULL\<close> filename and \<open>Some bytes\<close>
  for a regular file that \<open>open\<close>, \<open>fstat\<close> and \<open>mmap\<close> accept, mapped with content
  \<open>bytes\<close> at address \<open>mmap_base\<close>; the failures of these system calls are outside
  the model. The result \<open>None\<close> is the \<open>NULL\<close> that \<open>editor_load\<close> returns when an
  allocation fails. The second argument is the allocation plan of the session.
\<close>

definition mmap_base :: ptr where
  "mmap_base = 4096"

definition editor_load :: "string option \<Rightarrow> bool list \<Rightarrow> Editor option" where
  "editor_load file plan =
     (let sentinel = \<lparr>p_editor = 0, p_prev = 0, p_next = 0, p_global_prev = 0,
                      p_global_next = 0, p_content = 0, p_len = 0, p_index = 0\<rparr>;
          ed0 = \<lparr>buf = \<lparr>b_size = 0, b_pos = 0, b_content = 0, b_next = 0\<rparr>,
                 buffers = 0, pieces = 0, cache = 0, piece_count = 2,
                 ed_redo = 0, ed_undo = 0, current_action = 0, saved_action = 0, ed_size = 0,
                 heap_buffer = Map.empty,
                 heap_piece = [ed_begin \<mapsto> sentinel\<lparr>p_next := ed_end, p_index := 1\<rparr>,
                               ed_end \<mapsto> sentinel\<lparr>p_prev := ed_begin, p_index := 2\<rparr>],
                 heap_change = Map.empty, heap_action = Map.empty,
                 mem = (\<lambda>a. CHR 0x00), alloc_plan = plan, next_addr = 3, brk = mmap_base,
                 clock = 0\<rparr>
      in case alloc_ok ed0 of (ok, ed1) \<Rightarrow>
        if \<not> ok then None
        else (case file of None \<Rightarrow> Some ed1
          | Some bytes \<Rightarrow> do {
              let n = of_nat (length bytes);
              let ed2 = ed1\<lparr>buf := \<lparr>b_size = n, b_pos = 0, b_content = mmap_base, b_next = 0\<rparr>,
                            mem := store_bytes (mem ed1) mmap_base bytes,
                            brk := mmap_base + n\<rparr>;
              (p, ed3) \<leftarrow> piece_alloc ed2;
              if p = 0 then None
              else do {
                ed4 \<leftarrow> piece_init ed3 ed_begin 0 p 0 0;
                ed5 \<leftarrow> piece_init ed4 p ed_begin ed_end (b_content (buf ed4)) (b_size (buf ed4));
                ed6 \<leftarrow> piece_init ed5 ed_end p 0 0 0;
                Some (ed6\<lparr>ed_size := b_size (buf ed6)\<rparr>)
              }
            }))"

text \<open>
  A callback of \<open>editor_iterate\<close> gets its data, the position and the \<open>len\<close> bytes at
  \<open>content\<close>, and returns the new data and whether to go on.
\<close>

partial_function (option) editor_iterate_loop ::
  "Editor \<Rightarrow> ('d \<Rightarrow> size_t \<Rightarrow> string \<Rightarrow> 'd \<times> bool) \<Rightarrow> 'd \<Rightarrow> size_t \<Rightarrow> addr \<Rightarrow> ptr \<Rightarrow> size_t \<Rightarrow> 'd option" where
  "editor_iterate_loop ed callback data pos p content len =
     (if p = 0 then Some data
      else let r = callback data pos (load_bytes (mem ed) content (unat len)) in
        if \<not> snd r then Some (fst r)
        else (case get_piece ed p of None \<Rightarrow> None
          | Some pc \<Rightarrow>
              if p_next pc = 0 then Some (fst r)
              else (case get_piece ed (p_next pc) of None \<Rightarrow> None
                | Some nx \<Rightarrow>
                    editor_iterate_loop ed callback (fst r) (pos + len) (p_next pc)
                      (p_content nx) (p_len nx))))"

definition editor_iterate ::
  "Editor \<Rightarrow> 'd \<Rightarrow> size_t \<Rightarrow> ('d \<Rightarrow> size_t \<Rightarrow> string \<Rightarrow> 'd \<times> bool) \<Rightarrow> 'd option" where
  "editor_iterate ed data pos callback = do {
     loc \<leftarrow> piece_get ed pos;
     let p = l_piece loc;
     if p = 0 then Some data
     else do {
       pc \<leftarrow> get_piece ed p;
       editor_iterate_loop ed callback data pos p (p_content pc + l_off loc) (p_len pc - l_off loc)
     }
   }"

text \<open>\<open>copy_content\<close> appends the bytes it is given to the output and goes on.\<close>

definition copy_content :: "string \<Rightarrow> size_t \<Rightarrow> string \<Rightarrow> string \<times> bool" where
  "copy_content data pos content = (data @ content, True)"

text \<open>The document: what \<open>editor_iterate\<close> from position 0 hands to \<open>copy_content\<close>.\<close>

definition document :: "Editor \<Rightarrow> string option" where
  "document ed = editor_iterate ed [] 0 copy_content"

section \<open>Concrete sessions\<close>

text \<open>The editor that \<open>editor_load(NULL)\<close> returns: two adjacent sentinels.\<close>

definition empty_document :: Editor where
  "empty_document =
     \<lparr>buf = \<lparr>b_size = 0, b_pos = 0, b_content = 0, b_next = 0\<rparr>,
      buffers = 0, pieces = 0, cache = 0, piece_count = 2,
      ed_redo = 0, ed_undo = 0, current_action = 0, saved_action = 0, ed_size = 0,
      heap_buffer = Map.empty,
      heap_piece = [1 \<mapsto> \<lparr>p_editor = 0, p_prev = 0, p_next = 2, p_global_prev = 0,
                             p_global_next = 0, p_content = 0, p_len = 0, p_index = 1\<rparr>,
                    2 \<mapsto> \<lparr>p_editor = 0, p_prev = 1, p_next = 0, p_global_prev = 0,
                             p_global_next = 0, p_content = 0, p_len = 0, p_index = 2\<rparr>],
      heap_change = Map.empty, heap_action = Map.empty,
      mem = (\<lambda>a. CHR 0x00), alloc_plan = [], next_addr = 3, brk = 4096, clock = 0\<rparr>"

text \<open>
  The sum of \<open>piece.len\<close> along the \<open>next\<close> chain from the begin sentinel (the
  sentinels add 0), as a natural number. This is the right-hand side of the length
  conservation property, not a function of editor.c.
\<close>

partial_function (option) chain_length_loop :: "Editor \<Rightarrow> addr \<Rightarrow> nat \<Rightarrow> nat option" where
  "chain_length_loop ed p n =
     (if p = 0 then Some n
      else case get_piece ed p of None \<Rightarrow> None
        | Some pc \<Rightarrow> chain_length_loop ed (p_next pc) (n + unat (p_len pc)))"

definition chain_length :: "Editor \<Rightarrow> nat option" where
  "chain_length ed = chain_length_loop ed ed_begin 0"

text \<open>
  \<open>load(NULL); insert(0, "abc"); delete(0, 1); undo(); redo()\<close>: the results of the
  four calls, then the size field, the chain length and the document.
\<close>

definition redo_scenario :: "(bool list \<times> size_t \<times> nat option \<times> string option) option" where
  "redo_scenario = do {
     ed0 \<leftarrow> editor_load None [];
     (r1, ed1) \<leftarrow> editor_insert ed0 0 ''abc'';
     (r2, ed2) \<leftarrow> editor_delete ed1 0 1;
     (r3, ed3) \<leftarrow> editor_undo ed2;
     (r4, ed4) \<leftarrow> editor_redo ed3;
     Some ([r1, r2, r3, r4], ed_size ed4, chain_length ed4, document ed4)
   }"

text \<open>
  \<open>load("abcdef"); insert(3, "XYZ")\<close>, then a look at position 4, which lies in the
  middle piece \<open>N\<close> of the new span \<open>[Before, After]\<close>. The result lists: the located
  piece is the cache; it is the successor of \<open>new.start\<close> and the predecessor of
  \<open>new.end\<close>; its bytes end at the end of the tail buffer; what \<open>cache_contains\<close>
  answers; and whether \<open>insert(4, "W")\<close> leaves the action's most recent Change in
  place (as the fast path does).
\<close>

definition midway_scenario :: "(bool \<times> bool \<times> bool \<times> bool \<times> bool) option" where
  "midway_scenario = do {
     ed0 \<leftarrow> editor_load (Some ''abcdef'') [];
     (r1, ed1) \<leftarrow> editor_insert ed0 3 ''XYZ'';
     loc \<leftarrow> piece_get ed1 4;
     a \<leftarrow> get_action ed1 (current_action ed1);
     cv \<leftarrow> get_change ed1 (a_change a);
     start \<leftarrow> get_piece ed1 (s_start (c_new cv));
     pc \<leftarrow> get_piece ed1 (l_piece loc);
     b \<leftarrow> get_buffer ed1 (buffers ed1);
     hit \<leftarrow> cache_contains ed1 (l_piece loc);
     (r2, ed2) \<leftarrow> editor_insert ed1 4 ''W'';
     a2 \<leftarrow> get_action ed2 (current_action ed2);
     Some (l_piece loc = cache ed1,
           p_next start = l_piece loc \<and> p_next pc = s_end (c_new cv),
           p_content pc + p_len pc = b_content b + b_pos b,
           hit,
           a_change a2 = a_change a)
   }"


text \<open>
  \<open>load(NULL); insert(0, "abc"); delete(2, SIZE_MAX)\<close>: the result of the insert, whether
  \<open>pos + len\<close> exceeds the size as numbers, the result of the delete, then the size field
  and the document.
\<close>

definition wrapped_delete_scenario :: "(bool \<times> bool \<times> bool \<times> size_t \<times> string option) option" where
  "wrapped_delete_scenario = do {
     ed0 \<leftarrow> editor_load None [];
     (r1, ed1) \<leftarrow> editor_insert ed0 0 ''abc'';
     (r2, ed2) \<leftarrow> editor_delete ed1 2 18446744073709551615;
     Some (r1, unat (2 :: size_t) + unat (18446744073709551615 :: size_t) > unat (ed_size ed1),
           r2, ed_size ed2, document ed2)
   }"

text \<open>
  \<open>load(NULL); insert(0, "abc"); undo(); insert(0, "x")\<close>: the results of the three calls, the
  redo stack after the undo and after the second insert, the head of the change list of the
  Action on the redo stack at these two moments, and the document.
\<close>

definition kept_redo_scenario ::
  "(bool list \<times> addr \<times> addr \<times> addr option \<times> addr option \<times> string option) option" where
  "kept_redo_scenario = do {
     ed0 \<leftarrow> editor_load None [];
     (r1, ed1) \<leftarrow> editor_insert ed0 0 ''abc'';
     (r2, ed2) \<leftarrow> editor_undo ed1;
     (r3, ed3) \<leftarrow> editor_insert ed2 0 ''x'';
     Some ([r1, r2, r3], ed_redo ed2, ed_redo ed3,
           map_option a_change (get_action ed2 (ed_redo ed2)),
           map_option a_change (get_action ed3 (ed_redo ed3)), document ed3)
   }"

text \<open>
  \<open>load(NULL); insert(0, "abc"); undo(); insert(0, "hello"); snapshot()\<close>, then a look at
  position 2 and \<open>insert(2, "X")\<close>: the results of the first three calls, the offset that
  \<open>piece_get\<close> returns and the length of the located piece, what \<open>cache_insert\<close> answers, the
  document, and what the insert returns.
\<close>

definition stale_piece_scenario ::
  "(bool list \<times> size_t \<times> size_t \<times> bool \<times> string option \<times> (bool \<times> Editor) option) option" where
  "stale_piece_scenario = do {
     ed0 \<leftarrow> editor_load None [];
     (r1, ed1) \<leftarrow> editor_insert ed0 0 ''abc'';
     (r2, ed2) \<leftarrow> editor_undo ed1;
     (r3, ed3) \<leftarrow> editor_insert ed2 0 ''hello'';
     let ed4 = editor_snapshot ed3;
     loc \<leftarrow> piece_get ed4 2;
     pc \<leftarrow> get_piece ed4 (l_piece loc);
     (hit, ed5) \<leftarrow> cache_insert ed4 (l_piece loc) (l_off loc) ''X'' (strlen ''X'');
     Some ([r1, r2, r3], l_off loc, p_len pc, hit, document ed4, editor_insert ed4 2 ''X'')
   }"

text \<open>
  A file holding "abc", loaded; \<open>insert(3, "x"); undo(); insert(3, "hello"); snapshot()\<close>; then
  the single edit \<open>insert(0, "y")\<close>, \<open>snapshot()\<close> and \<open>undo()\<close>: the results of the five calls,
  the document before the edit, and the document after the undo.
\<close>

definition undo_after_drain_scenario ::
  "(bool list \<times> string option \<times> string option) option" where
  "undo_after_drain_scenario = do {
     ed0 \<leftarrow> editor_load (Some ''abc'') [];
     (r1, ed1) \<leftarrow> editor_insert ed0 3 ''x'';
     (r2, ed2) \<leftarrow> editor_undo ed1;
     (r3, ed3) \<leftarrow> editor_insert ed2 3 ''hello'';
     let ed4 = editor_snapshot ed3;
     (r4, ed5) \<leftarrow> editor_insert ed4 0 ''y'';
     let ed6 = editor_snapshot ed5;
     (r5, ed7) \<leftarrow> editor_undo ed6;
     Some ([r1, r2, r3, r4, r5], document ed4, document ed7)
   }"

text \<open>
  A file holding "abcdef", loaded; \<open>insert(3, "XYZ"); snapshot(); undo(); insert(0, "q")\<close>:
  the results of the three calls, the redo stack after the undo and after the second insert,
  whether the three pieces of the undone insert (addresses 7, 8, 9) and the undone Action are
  still allocated, and the document.
\<close>

definition drained_redo_scenario ::
  "(bool list \<times> addr \<times> addr \<times> bool list \<times> bool \<times> string option) option" where
  "drained_redo_scenario = do {
     ed0 \<leftarrow> editor_load (Some ''abcdef'') [];
     (r1, ed1) \<leftarrow> editor_insert ed0 3 ''XYZ'';
     let ed2 = editor_snapshot ed1;
     (r2, ed3) \<leftarrow> editor_undo ed2;
     (r3, ed4) \<leftarrow> editor_insert ed3 0 ''q'';
     Some ([r1, r2, r3], ed_redo ed3, ed_redo ed4,
           map (\<lambda>q. get_piece ed4 q \<noteq> None) [7, 8, 9],
           get_action ed4 (ed_redo ed3) \<noteq> None, document ed4)
   }"

section \<open>Specification vocabulary\<close>

text \<open>
  The definitions of this section are not functions of editor.c: they are the
  vocabulary in which the properties below are stated.
\<close>

subsection \<open>Frames\<close>

text \<open>
  \<open>links_frame ed ed'\<close>: the two states differ at most in the \<open>prev\<close>/\<open>next\<close> links of
  pieces, the size, the two stack heads and the \<open>next\<close> links of Actions.
\<close>

definition strip_links :: "Piece \<Rightarrow> Piece" where
  "strip_links pc = pc\<lparr>p_prev := 0, p_next := 0\<rparr>"

definition strip_stack :: "Action \<Rightarrow> Action" where
  "strip_stack av = av\<lparr>a_next := 0\<rparr>"

definition undo_rest :: "Editor \<Rightarrow> Editor" where
  "undo_rest ed = ed\<lparr>heap_piece := Map.empty, ed_size := 0, ed_undo := 0, ed_redo := 0,
                    heap_action := Map.empty\<rparr>"

definition links_frame :: "Editor \<Rightarrow> Editor \<Rightarrow> bool" where
  "links_frame ed ed' \<longleftrightarrow>
     undo_rest ed' = undo_rest ed \<and>
     (\<forall>p. map_option strip_links (heap_piece ed' p) = map_option strip_links (heap_piece ed p)) \<and>
     (\<forall>a. map_option strip_stack (heap_action ed' a) = map_option strip_stack (heap_action ed a))"

subsection \<open>Chains of pieces\<close>

text \<open>
  \<open>piece_path ed p xs\<close>: following \<open>next\<close> from \<open>p\<close> visits exactly the allocated
  pieces \<open>xs\<close> and then reaches \<open>NULL\<close>. \<open>piece_len\<close> is a piece's length and
  \<open>start_of ed ps k\<close> the sum of the lengths of the first \<open>k\<close> pieces of \<open>ps\<close>: the
  cumulative position at which the piece of index \<open>k\<close> starts.
\<close>

fun piece_path :: "Editor \<Rightarrow> addr \<Rightarrow> addr list \<Rightarrow> bool" where
  "piece_path ed p [] = (p = 0)"
| "piece_path ed p (x # xs) =
     (p = x \<and> (case get_piece ed x of None \<Rightarrow> False | Some pc \<Rightarrow> piece_path ed (p_next pc) xs))"

definition piece_len :: "Editor \<Rightarrow> addr \<Rightarrow> nat" where
  "piece_len ed x = (case get_piece ed x of None \<Rightarrow> 0 | Some pc \<Rightarrow> unat (p_len pc))"

definition start_of :: "Editor \<Rightarrow> addr list \<Rightarrow> nat \<Rightarrow> nat" where
  "start_of ed ps k = sum_list (map (piece_len ed) (take k ps))"

subsection \<open>States of concrete sessions\<close>

text \<open>\<open>load(NULL); insert(0, "abc")\<close> and then \<open>undo()\<close>, with no snapshot.\<close>

definition typed_abc :: Editor where
  "typed_abc = snd (the (editor_insert empty_document 0 ''abc''))"

definition undone_abc :: Editor where
  "undone_abc = snd (the (editor_undo typed_abc))"

text \<open>A file holding "abcdef", loaded; then \<open>insert(3, "XYZ")\<close>.\<close>

definition abcdef_document :: Editor where
  "abcdef_document = the (editor_load (Some ''abcdef'') [])"

definition midway_document :: Editor where
  "midway_document = snd (the (editor_insert abcdef_document 3 ''XYZ''))"

subsection \<open>Views, segments and frames used in the proofs\<close>

definition strip_global :: "Piece \<Rightarrow> Piece" where
  "strip_global pc = pc\<lparr>p_global_prev := 0, p_global_next := 0\<rparr>"

definition pview :: "Editor \<Rightarrow> addr \<Rightarrow> Piece option" where
  "pview ed q = map_option strip_global (get_piece ed q)"

text \<open>kept: pieces are freed or keep their view\<close>

definition kept :: "Editor \<Rightarrow> Editor \<Rightarrow> bool" where
  "kept ed ed' \<longleftrightarrow> (\<forall>q. pview ed' q = None \<or> pview ed' q = pview ed q)"

definition free_rest :: "Editor \<Rightarrow> Editor" where
  "free_rest ed = ed\<lparr>heap_piece := Map.empty, heap_change := Map.empty, heap_action := Map.empty,
                     pieces := 0, cache := 0, ed_redo := 0\<rparr>"

definition free_frame :: "Editor \<Rightarrow> Editor \<Rightarrow> bool" where
  "free_frame ed ed' \<longleftrightarrow>
     free_rest ed' = free_rest ed \<and> kept ed ed' \<and>
     (\<forall>c. heap_change ed' c = None \<or> heap_change ed' c = heap_change ed c) \<and>
     (\<forall>a. heap_action ed' a = None \<or> heap_action ed' a = heap_action ed a) \<and>
     (cache ed' = cache ed \<or> cache ed' = 0)"

definition obs where
  "obs ed = (heap_change ed, heap_action ed, ed_undo ed, ed_redo ed, current_action ed, cache ed,
             ed_size ed, mem ed, buffers ed, heap_buffer ed, brk ed, saved_action ed, clock ed, buf ed)"

definition fresh_view :: "int \<Rightarrow> Piece" where
  "fresh_view idx = \<lparr>p_editor = this_editor, p_prev = 0, p_next = 0, p_global_prev = 0,
                     p_global_next = 0, p_content = 0, p_len = 0, p_index = idx\<rparr>"

type_synonym view = "addr \<Rightarrow> Piece option"

fun vseg :: "view \<Rightarrow> addr \<Rightarrow> addr list \<Rightarrow> addr \<Rightarrow> bool" where
  "vseg V p [] q = (p = q)"
| "vseg V p (x # xs) q = (p = x \<and> (case V x of None \<Rightarrow> False | Some v \<Rightarrow> vseg V (p_next v) xs q))"

definition vset :: "view \<Rightarrow> addr \<Rightarrow> (Piece \<Rightarrow> Piece) \<Rightarrow> view option" where
  "vset V q f = (case V q of None \<Rightarrow> None | Some v \<Rightarrow> Some (V(q \<mapsto> f v)))"

definition swap_view :: "view \<Rightarrow> Span \<Rightarrow> Span \<Rightarrow> view option" where
  "swap_view V old new =
     (if s_len old = 0 \<and> s_len new = 0 then Some V
      else if s_len old = 0 then do {
             ns \<leftarrow> V (s_start new);
             V1 \<leftarrow> vset V (p_prev ns) (\<lambda>q. q\<lparr>p_next := s_start new\<rparr>);
             ne \<leftarrow> V1 (s_end new);
             vset V1 (p_next ne) (\<lambda>q. q\<lparr>p_prev := s_end new\<rparr>) }
      else if s_len new = 0 then do {
             os \<leftarrow> V (s_start old);
             oe \<leftarrow> V (s_end old);
             V1 \<leftarrow> vset V (p_prev os) (\<lambda>q. q\<lparr>p_next := p_next oe\<rparr>);
             oe1 \<leftarrow> V1 (s_end old);
             os1 \<leftarrow> V1 (s_start old);
             vset V1 (p_next oe1) (\<lambda>q. q\<lparr>p_prev := p_prev os1\<rparr>) }
      else do {
             os \<leftarrow> V (s_start old);
             V1 \<leftarrow> vset V (p_prev os) (\<lambda>q. q\<lparr>p_next := s_start new\<rparr>);
             oe \<leftarrow> V1 (s_end old);
             vset V1 (p_next oe) (\<lambda>q. q\<lparr>p_prev := s_end new\<rparr>) })"

definition same_al :: "Editor \<Rightarrow> Editor \<Rightarrow> bool" where
  "same_al ed ed' \<longleftrightarrow> next_addr ed' = next_addr ed \<and> alloc_plan ed' = alloc_plan ed \<and>
      pieces ed' = pieces ed \<and> piece_count ed' = piece_count ed"

text \<open>set_piece and its view\<close>

definition upd_ok :: "(Piece \<Rightarrow> Piece) \<Rightarrow> bool" where
  "upd_ok f \<longleftrightarrow> (\<forall>pc. strip_global (f pc) = f (strip_global pc))"

text \<open>The exchange of two segments\<close>

definition covers :: "Span \<Rightarrow> addr list \<Rightarrow> bool" where
  "covers sp xs \<longleftrightarrow> (s_len sp = 0 \<longleftrightarrow> xs = []) \<and> (xs \<noteq> [] \<longrightarrow> s_start sp = hd xs \<and> s_end sp = last xs)"

definition swappable :: "view \<Rightarrow> addr list \<Rightarrow> addr list \<Rightarrow> addr list \<Rightarrow> addr list \<Rightarrow> bool" where
  "swappable V pre X Y post \<longleftrightarrow>
     V 0 = None \<and> pre \<noteq> [] \<and> post \<noteq> [] \<and>
     vseg V (hd pre) (pre @ X @ post) 0 \<and>
     vseg V (hd (Y @ post)) Y (hd post) \<and>
     set Y \<inter> set (pre @ X @ post) = {} \<and> distinct Y \<and> 0 \<notin> set Y \<and>
     (X \<noteq> [] \<longrightarrow> map_option p_prev (V (hd X)) = Some (last pre)) \<and>
     (Y \<noteq> [] \<longrightarrow> map_option p_prev (V (hd Y)) = Some (last pre))"

definition zero_span :: Span where
  "zero_span = \<lparr>s_start = 0, s_end = 0, s_len = 0\<rparr>"

text \<open>what change_alloc leaves behind when it returns a Change\<close>

definition change_alloc_post :: "Editor \<Rightarrow> addr \<Rightarrow> Editor \<Rightarrow> bool" where
  "change_alloc_post ed c ed' \<longleftrightarrow>
     kept ed ed' \<and> next_addr ed \<le> next_addr ed' \<and>
     ed_size ed' = ed_size ed \<and> mem ed' = mem ed \<and> buffers ed' = buffers ed \<and>
     heap_buffer ed' = heap_buffer ed \<and> brk ed' = brk ed \<and> saved_action ed' = saved_action ed \<and>
     (cache ed' = cache ed \<or> cache ed' = 0) \<and>
     current_action ed' \<noteq> 0 \<and>
     (\<exists>av cn. get_action ed' (current_action ed') = Some av \<and> a_change av = c \<and>
         get_change ed' c = Some \<lparr>c_old = zero_span, c_new = zero_span, c_next = cn\<rparr> \<and>
         (current_action ed = 0 \<longrightarrow> a_next av = ed_undo ed \<and> cn = 0)) \<and>
     (current_action ed = 0 \<longrightarrow> ed_undo ed' = current_action ed' \<and> ed_redo ed' = 0) \<and>
     (current_action ed \<noteq> 0 \<longrightarrow> current_action ed' = current_action ed \<and> ed_undo ed' = ed_undo ed \<and>
         ed_redo ed' = ed_redo ed \<and> heap_piece ed' = heap_piece ed \<and> cache ed' = cache ed)"

definition store_dest :: "Editor \<Rightarrow> size_t \<Rightarrow> ptr" where
  "store_dest ed len =
     (if buffers ed = 0 then brk ed
      else case get_buffer ed (buffers ed) of None \<Rightarrow> brk ed
        | Some bv \<Rightarrow> if b_size bv - b_pos bv \<ge> len then b_content bv + b_pos bv else brk ed)"







section \<open>Evaluation\<close>

lemmas loop_simps =
  cache_contains_loop.simps piece_get_loop.simps span_init_loop.simps
  action_free_loop.simps action_alloc_loop.simps editor_delete_loop.simps
  editor_undo_loop.simps editor_redo_loop.simps editor_iterate_loop.simps
  chain_length_loop.simps

lemmas editor_defs =
  this_editor_def ed_begin_def ed_end_def BUFFER_SIZE_def
  get_buffer_def get_piece_def get_change_def get_action_def
  set_buffer_def set_piece_def set_change_def set_action_def
  alloc_ok_def calloc_def malloc_def store_bytes_def load_bytes_def strlen_def
  buffer_alloc_def buffer_capacity_def buffer_append_def buffer_store_def
  buffer_insert_def buffer_delete_def cache_piece_def cache_contains_def
  cache_insert_def cache_delete_def piece_alloc_def piece_free_def piece_init_def
  piece_get_def span_init_def span_swap_def stack_get_def stack_set_def
  action_push_def action_pop_def change_free_def action_free_def action_alloc_def
  change_alloc_def editor_insert_def editor_delete_def editor_replace_def
  editor_undo_def editor_redo_def editor_snapshot_def editor_modified_def
  mmap_base_def editor_load_def editor_iterate_def copy_content_def document_def
  chain_length_def

lemma editor_load_empty: "editor_load None [] = Some empty_document"
  by (simp add: editor_load_def empty_document_def alloc_ok_def ed_begin_def ed_end_def
      mmap_base_def)

section \<open>Delete: the range guard\<close>

text \<open>
  C8. A delete whose range ends beyond the document should fail and leave the editor
  unchanged. The guard of \<open>editor_delete\<close> adds \<open>pos\<close> and \<open>len\<close> in \<open>size_t\<close>, where the sum
  wraps: on the document "abc", \<open>delete(2, SIZE_MAX)\<close> has \<open>pos + len\<close> far beyond the size 3,
  passes the guard (the wrapped sum is 1) and the checks of the cache path, returns success,
  and leaves the document "abbc" with size 4.
\<close>

theorem delete_range_wraps:
  "wrapped_delete_scenario = Some (True, True, True, 4, Some ''abbc'')"
  by (simp add: wrapped_delete_scenario_def editor_defs loop_simps Let_def upt_rec
      unsigned_minus_1_eq_mask mask_eq_exp_minus_1)

section \<open>Length conservation\<close>

text \<open>
  C2. The size field should equal the sum of the piece lengths on the chain in every
  reachable state. \<open>editor_redo\<close> replays the Changes of an Action most recent first,
  the order of \<open>editor_undo\<close>; with two overlapping Changes in one Action the redo
  leaves size 2 for a chain of length 3 (the document is "abc").
\<close>

theorem redo_breaks_size:
  "redo_scenario = Some ([True, True, True, True], 2, Some 3, Some ''abc'')"
  by (simp add: redo_scenario_def editor_defs loop_simps Let_def upt_rec)

section \<open>The cache fast path\<close>

text \<open>
  C4. After a midway insert the cached middle piece satisfies every condition that
  the fast path is specified to need, but \<open>cache_contains\<close> compares with
  \<open>new.start\<close> only and answers false, and the next insert allocates a new Change.
\<close>

theorem cache_miss_after_midway_insert:
  "midway_scenario = Some (True, True, True, False, False)"
  by (simp add: midway_scenario_def editor_defs loop_simps Let_def upt_rec)

section \<open>Replace\<close>

text \<open>
  C10. \<open>editor_replace\<close> should return true for every input. At a position beyond the end
  of the document it does not return: \<open>piece_get\<close> finds no piece, and \<open>editor_insert\<close>
  dereferences the null piece that it is given.
\<close>

theorem editor_replace_beyond_end: "editor_replace empty_document 1 ''a'' = None"
  by (simp add: empty_document_def editor_defs loop_simps Let_def)

section \<open>The frame of undo and redo\<close>

lemma links_frame_refl: "links_frame ed ed"
  by (simp add: links_frame_def)

lemma links_frame_trans: "links_frame a b \<Longrightarrow> links_frame b c \<Longrightarrow> links_frame a c"
  by (simp add: links_frame_def)

lemma set_piece_links:
  assumes "set_piece ed p f = Some ed'" "\<And>pc. strip_links (f pc) = strip_links pc"
  shows "links_frame ed ed'"
  using assms 
  by (auto simp: set_piece_def get_piece_def links_frame_def undo_rest_def split: option.splits if_splits)

lemma set_action_links:
  assumes "set_action ed p f = Some ed'" "\<And>pc. strip_stack (f pc) = strip_stack pc"
  shows "links_frame ed ed'"
  using assms 
  by (auto simp: set_action_def get_action_def links_frame_def undo_rest_def split: option.splits if_splits)

lemma links_frame_size: "links_frame ed ed' \<Longrightarrow> links_frame ed (ed'\<lparr>ed_size := n\<rparr>)"
  by (simp add: links_frame_def undo_rest_def)

lemma span_swap_links: 
  assumes "span_swap ed old new = Some ed'" shows "links_frame ed ed'"
proof (cases "s_len old = 0 \<and> s_len new = 0")
  case True
  then show ?thesis using assms by (simp add: span_swap_def links_frame_refl)
next
  case False
  have sl: "\<And>pc x. strip_links (pc\<lparr>p_next := x\<rparr>) = strip_links pc" 
           "\<And>pc x. strip_links (pc\<lparr>p_prev := x\<rparr>) = strip_links pc"
    by (simp_all add: strip_links_def)
  from False assms show ?thesis
    by (auto simp: span_swap_def Let_def split: if_splits Option.bind_splits 
        intro!: links_frame_size intro: links_frame_trans [OF set_piece_links set_piece_links] sl)
qed

lemma editor_undo_loop_links: "editor_undo_loop ed c = Some ed' \<Longrightarrow> links_frame ed ed'"
proof (induct rule: editor_undo_loop.raw_induct[rotated 1, consumes 1, case_names step])
  case (step undo_loop ed c ed')
  then show ?case
    by (auto split: if_splits option.splits intro: links_frame_refl links_frame_trans dest: span_swap_links)
qed

lemma editor_redo_loop_links: "editor_redo_loop ed c = Some ed' \<Longrightarrow> links_frame ed ed'"
proof (induct rule: editor_redo_loop.raw_induct[rotated 1, consumes 1, case_names step])
  case (step redo_loop ed c ed')
  then show ?case
    by (auto split: if_splits option.splits intro: links_frame_refl links_frame_trans dest: span_swap_links)
qed

lemma stack_set_links: "links_frame ed (stack_set ed s a)"
  by (cases s) (simp_all add: links_frame_def stack_set_def undo_rest_def)

lemma action_pop_links: "action_pop ed s = Some (a, ed') \<Longrightarrow> links_frame ed ed'"
  by (auto simp: action_pop_def Let_def links_frame_refl stack_set_links split: if_splits Option.bind_splits)

lemma action_push_links: "action_push ed s a = Some ed' \<Longrightarrow> links_frame ed ed'"
  by (auto simp: action_push_def strip_stack_def split: Option.bind_splits
      intro: links_frame_trans [OF set_action_links stack_set_links])

lemma editor_undo_links: "editor_undo ed = Some (r, ed') \<Longrightarrow> links_frame ed ed'"
  by (auto simp: editor_undo_def links_frame_refl split: Option.bind_splits if_splits
      dest!: action_pop_links editor_undo_loop_links action_push_links)
     (blast intro: links_frame_trans)

lemma editor_redo_links: "editor_redo ed = Some (r, ed') \<Longrightarrow> links_frame ed ed'"
  by (auto simp: editor_redo_def links_frame_refl split: Option.bind_splits if_splits
      dest!: action_pop_links editor_redo_loop_links action_push_links)
     (blast intro: links_frame_trans)

lemma links_frame_fields:
  assumes "links_frame ed ed'"
  shows "current_action ed' = current_action ed" "cache ed' = cache ed" "saved_action ed' = saved_action ed"
    "heap_change ed' = heap_change ed" "alloc_plan ed' = alloc_plan ed" "next_addr ed' = next_addr ed"
proof -
  from assms have e: "undo_rest ed' = undo_rest ed" by (simp add: links_frame_def)
  show "current_action ed' = current_action ed" using arg_cong [OF e, of current_action] by (simp add: undo_rest_def)
  show "cache ed' = cache ed" using arg_cong [OF e, of cache] by (simp add: undo_rest_def)
  show "saved_action ed' = saved_action ed" using arg_cong [OF e, of saved_action] by (simp add: undo_rest_def)
  show "heap_change ed' = heap_change ed" using arg_cong [OF e, of heap_change] by (simp add: undo_rest_def)
  show "alloc_plan ed' = alloc_plan ed" using arg_cong [OF e, of alloc_plan] by (simp add: undo_rest_def)
  show "next_addr ed' = next_addr ed" using arg_cong [OF e, of next_addr] by (simp add: undo_rest_def)
qed

lemma change_alloc_open:
  assumes "current_action ed \<noteq> 0" "change_alloc ed = Some (c, ed')" "c \<noteq> 0"
  shows "current_action ed' = current_action ed \<and> ed_undo ed' = ed_undo ed \<and> ed_redo ed' = ed_redo ed \<and>
         map_option a_change (get_action ed' (current_action ed)) = Some c \<and>
         map_option c_next (get_change ed' c) = map_option a_change (get_action ed (current_action ed))"
  using assms
  by (auto simp: change_alloc_def calloc_def alloc_ok_def set_action_def get_action_def get_change_def Let_def
      split: if_splits Option.bind_splits list.splits prod.splits option.splits)

text \<open>
  C9. \<open>editor_undo\<close> and \<open>editor_redo\<close> change only the links of pieces, the size
  and the two stacks (\<open>links_frame\<close>); \<open>current_action\<close>, \<open>cache\<close> and
  \<open>saved_action\<close> stay. So an action left open at the time of the undo stays the
  current action: the \<open>change_alloc\<close> of the next edit allocates no Action, leaves
  both stacks alone and puts its Change in front of that action's change list.
\<close>

theorem undo_redo_frame:
  assumes "editor_undo ed = Some (r, ed') \<or> editor_redo ed = Some (r, ed')"
  shows "current_action ed' = current_action ed \<and> cache ed' = cache ed \<and>
         saved_action ed' = saved_action ed \<and> links_frame ed ed' \<and>
         (current_action ed \<noteq> 0 \<longrightarrow>
            (\<forall>c ed''. change_alloc ed' = Some (c, ed'') \<longrightarrow> c \<noteq> 0 \<longrightarrow>
               current_action ed'' = current_action ed \<and>
               ed_undo ed'' = ed_undo ed' \<and> ed_redo ed'' = ed_redo ed' \<and>
               map_option a_change (get_action ed'' (current_action ed)) = Some c \<and>
               map_option c_next (get_change ed'' c) =
                 map_option a_change (get_action ed' (current_action ed))))"
proof -
  from assms have f: "links_frame ed ed'"
    by (auto dest: editor_undo_links editor_redo_links)
  note ff = links_frame_fields [OF f]
  show ?thesis
    using f ff(1-3) change_alloc_open [of ed'] by auto
qed

theorem undo_redo_frame_witness:
  "editor_undo typed_abc = Some (True, undone_abc) \<and>
   current_action typed_abc = 3 \<and> current_action undone_abc = 3 \<and>
   ed_undo undone_abc = 0 \<and> ed_redo undone_abc = 3 \<and>
   fst (the (change_alloc undone_abc)) = 7 \<and>
   ed_redo (snd (the (change_alloc undone_abc))) = 3 \<and>
   map_option a_change (get_action (snd (the (change_alloc undone_abc))) 3) = Some 7 \<and>
   map_option c_next (get_change (snd (the (change_alloc undone_abc))) 7) = Some 4"
proof -
  have u: "map_option fst (editor_undo typed_abc) = Some True"
    by (simp add: typed_abc_def empty_document_def editor_defs loop_simps Let_def)
  then have u': "editor_undo typed_abc = Some (True, undone_abc)"
    by (auto simp: undone_abc_def)
  have c: "map_option fst (change_alloc undone_abc) = Some 7"
    by (simp add: undone_abc_def typed_abc_def empty_document_def editor_defs loop_simps Let_def)
  then have c': "change_alloc undone_abc = Some (7, snd (the (change_alloc undone_abc)))"
    by auto
  have a: "current_action typed_abc = 3"
    by (simp add: typed_abc_def empty_document_def editor_defs loop_simps Let_def)
  have r: "ed_redo undone_abc = 3" "ed_undo undone_abc = 0"
      "map_option a_change (get_action undone_abc 3) = Some 4"
    by (simp_all add: undone_abc_def typed_abc_def empty_document_def editor_defs loop_simps Let_def)
  show ?thesis
    using undo_redo_frame [OF disjI1 [OF u']] u' a r c c' by auto
qed

section \<open>Positional lookup\<close>

lemma start_of_Cons: "start_of ed (x # xs) (Suc k) = piece_len ed x + start_of ed xs k"
  by (simp add: start_of_def)

lemma start_of_0: "start_of ed xs 0 = 0"
  by (simp add: start_of_def)

lemma piece_get_loop_path:
  assumes "piece_path ed p (ps @ [e])" "unat cur \<le> unat pos"
    "unat pos \<le> unat cur + sum_list (map (piece_len ed) ps)"
    "unat cur + sum_list (map (piece_len ed) ps) < 2 ^ 64" "ps \<noteq> []"
  shows "\<exists>k<length ps.
           piece_get_loop ed pos p cur = Some \<lparr>l_piece = ps ! k, l_off = pos - cur - of_nat (start_of ed ps k)\<rparr> \<and>
           unat cur + start_of ed ps k \<le> unat pos \<and>
           unat pos \<le> unat cur + start_of ed ps k + piece_len ed (ps ! k) \<and>
           (\<forall>j<k. unat cur + start_of ed ps j + piece_len ed (ps ! j) < unat pos)"
  using assms
proof (induction ps arbitrary: p cur)
  case Nil
  then show ?case by simp
next
  case (Cons x xs)
  from Cons.prems(1) obtain pc where pc: "p = x" "get_piece ed x = Some pc" "piece_path ed (p_next pc) (xs @ [e])"
    by (auto split: option.splits)
  have lx: "piece_len ed x = unat (p_len pc)" using pc by (simp add: piece_len_def)
  have nz: "p_next pc \<noteq> 0" using pc(3) by (cases xs) (auto simp: get_piece_def split: option.splits if_splits)
  have noov: "unat cur + unat (p_len pc) < 2 ^ 64" using Cons.prems(4) lx by simp
  then have ua: "unat (cur + p_len pc) = unat cur + unat (p_len pc)"
    by (simp add: unat_add_lem [THEN iffD1])
  show ?case
  proof (cases "unat pos \<le> unat cur + unat (p_len pc)")
    case True
    then have "piece_get_loop ed pos p cur = Some \<lparr>l_piece = x, l_off = pos - cur\<rparr>"
      using pc nz Cons.prems(2) ua
      by (subst piece_get_loop.simps) (simp add: word_le_nat_alt)
    then show ?thesis using True Cons.prems(2) lx
      by (intro exI [of _ 0]) (simp add: start_of_0)
  next
    case False
    then have step: "piece_get_loop ed pos p cur = piece_get_loop ed pos (p_next pc) (cur + p_len pc)"
      using pc nz ua
      by (subst piece_get_loop.simps) (simp add: word_le_nat_alt)
    have xs: "xs \<noteq> []" using False Cons.prems(3) lx by auto
    have "\<exists>k<length xs.
           piece_get_loop ed pos (p_next pc) (cur + p_len pc) =
             Some \<lparr>l_piece = xs ! k, l_off = pos - (cur + p_len pc) - of_nat (start_of ed xs k)\<rparr> \<and>
           unat (cur + p_len pc) + start_of ed xs k \<le> unat pos \<and>
           unat pos \<le> unat (cur + p_len pc) + start_of ed xs k + piece_len ed (xs ! k) \<and>
           (\<forall>j<k. unat (cur + p_len pc) + start_of ed xs j + piece_len ed (xs ! j) < unat pos)"
      using Cons.prems False lx ua xs pc(3)
      by (intro Cons.IH) auto
    then obtain k where k: "k < length xs"
      "piece_get_loop ed pos (p_next pc) (cur + p_len pc) =
             Some \<lparr>l_piece = xs ! k, l_off = pos - (cur + p_len pc) - of_nat (start_of ed xs k)\<rparr>"
      "unat (cur + p_len pc) + start_of ed xs k \<le> unat pos"
      "unat pos \<le> unat (cur + p_len pc) + start_of ed xs k + piece_len ed (xs ! k)"
      "\<forall>j<k. unat (cur + p_len pc) + start_of ed xs j + piece_len ed (xs ! j) < unat pos"
      by blast
    have off: "pos - (cur + p_len pc) - of_nat (start_of ed xs k) = pos - cur - of_nat (start_of ed (x # xs) (Suc k))"
      by (simp add: start_of_Cons lx)
    have "\<forall>j<Suc k. unat cur + start_of ed (x # xs) j + piece_len ed ((x # xs) ! j) < unat pos"
    proof (intro allI impI)
      fix j assume "j < Suc k"
      then show "unat cur + start_of ed (x # xs) j + piece_len ed ((x # xs) ! j) < unat pos"
        using k(5) False lx ua by (cases j) (auto simp: start_of_0 start_of_Cons)
    qed
    then show ?thesis
      using k step off ua lx
      by (intro exI [of _ "Suc k"]) (simp add: start_of_Cons)
  qed
qed

lemma start_of_Suc: "k < length ps \<Longrightarrow> start_of ed ps (Suc k) = start_of ed ps k + piece_len ed (ps ! k)"
  by (simp add: start_of_def take_Suc_conv_app_nth)

lemma start_of_mono: "j \<le> k \<Longrightarrow> start_of ed ps j \<le> start_of ed ps k"
proof (induction k)
  case 0 then show ?case by simp
next
  case (Suc k)
  show ?case
  proof (cases "j = Suc k")
    case True then show ?thesis by simp
  next
    case False
    then have "start_of ed ps j \<le> start_of ed ps k" using Suc by simp
    also have "\<dots> \<le> start_of ed ps (Suc k)"
    proof (cases "k < length ps")
      case True then show ?thesis by (simp add: start_of_Suc)
    next
      case False then show ?thesis by (simp add: start_of_def)
    qed
    finally show ?thesis .
  qed
qed

lemma start_of_total: "start_of ed ps (length ps) = sum_list (map (piece_len ed) ps)"
  by (simp add: start_of_def)

lemma end_mono:
  assumes "k \<le> j" "j < length ps"
  shows "start_of ed ps k + piece_len ed (ps ! k) \<le> start_of ed ps j + piece_len ed (ps ! j)"
proof -
  have "start_of ed ps k + piece_len ed (ps ! k) = start_of ed ps (Suc k)" using assms by (simp add: start_of_Suc)
  also have "\<dots> \<le> start_of ed ps (Suc j)" using assms by (intro start_of_mono) simp
  also have "\<dots> = start_of ed ps j + piece_len ed (ps ! j)" using assms by (simp add: start_of_Suc)
  finally show ?thesis .
qed

lemma tail_zero:
  assumes "k < length ps" "start_of ed ps (Suc k) = sum_list (map (piece_len ed) ps)" "k < j" "j < length ps"
  shows "piece_len ed (ps ! j) = 0"
proof -
  have "start_of ed ps (Suc k) \<le> start_of ed ps j" using assms by (intro start_of_mono) simp
  moreover have "start_of ed ps (Suc j) \<le> start_of ed ps (length ps)" using assms by (intro start_of_mono) simp
  moreover have "start_of ed ps (Suc j) = start_of ed ps j + piece_len ed (ps ! j)" using assms by (simp add: start_of_Suc)
  ultimately show ?thesis using assms(2) by (simp add: start_of_total)
qed

text \<open>
  C7, amended. Let the chain from the begin sentinel be \<open>ps @ [e]\<close> (so \<open>e\<close> is the
  end sentinel, which the loop never examines), with a total length that fits
  \<open>size_t\<close>, and let \<open>pos\<close> be at most the total. Then \<open>piece_get\<close> returns the first
  piece of \<open>ps\<close> whose closed range \<open>[start, start + len]\<close> contains \<open>pos\<close>, with offset
  \<open>pos - start\<close>; when \<open>pos\<close> is the right boundary of some piece, the offset is the
  length of the piece returned; for \<open>pos = 0\<close> the piece is the begin sentinel; and
  when \<open>pos\<close> is the total, the offset is the length of the piece returned and every
  later piece has length 0 (so the piece is the last real one whenever that has
  bytes, and the begin sentinel in an empty document).
\<close>

theorem piece_get_first_containing:
  assumes "piece_path ed ed_begin (ps @ [e])" "ps \<noteq> []"
    "sum_list (map (piece_len ed) ps) < 2 ^ 64" "unat pos \<le> sum_list (map (piece_len ed) ps)"
  shows "\<exists>k<length ps.
     piece_get ed pos = Some \<lparr>l_piece = ps ! k, l_off = pos - of_nat (start_of ed ps k)\<rparr> \<and>
     unat (pos - of_nat (start_of ed ps k)) = unat pos - start_of ed ps k \<and>
     start_of ed ps k \<le> unat pos \<and> unat pos \<le> start_of ed ps k + piece_len ed (ps ! k) \<and>
     (\<forall>j<k. \<not> (start_of ed ps j \<le> unat pos \<and> unat pos \<le> start_of ed ps j + piece_len ed (ps ! j))) \<and>
     ((\<exists>j<length ps. unat pos = start_of ed ps j + piece_len ed (ps ! j)) \<longrightarrow>
        unat pos - start_of ed ps k = piece_len ed (ps ! k)) \<and>
     (pos = 0 \<longrightarrow> ps ! k = ed_begin) \<and>
     (unat pos = sum_list (map (piece_len ed) ps) \<longrightarrow>
        unat pos - start_of ed ps k = piece_len ed (ps ! k) \<and>
        (\<forall>j<length ps. k < j \<longrightarrow> piece_len ed (ps ! j) = 0))"
proof -
  from piece_get_loop_path [of ed ed_begin ps e 0 pos] assms
  obtain k where k: "k < length ps"
    "piece_get ed pos = Some \<lparr>l_piece = ps ! k, l_off = pos - of_nat (start_of ed ps k)\<rparr>"
    "start_of ed ps k \<le> unat pos" "unat pos \<le> start_of ed ps k + piece_len ed (ps ! k)"
    "\<forall>j<k. start_of ed ps j + piece_len ed (ps ! j) < unat pos"
    by (auto simp: piece_get_def)
  have lt: "start_of ed ps k < 2 ^ 64"
  proof -
    have "unat pos < 2 ^ LENGTH(64)" by (rule unsigned_less)
    then have "unat pos < 2 ^ 64" by simp
    then show ?thesis using k(3) by simp
  qed
  have us: "unat (of_nat (start_of ed ps k) :: 64 word) = start_of ed ps k"
    using lt by (simp add: unat_of_nat)
  have off: "unat (pos - of_nat (start_of ed ps k)) = unat pos - start_of ed ps k"
    using k(3) us by (simp add: unat_sub word_le_nat_alt)
  have bnd: "unat pos - start_of ed ps k = piece_len ed (ps ! k)"
    if "j < length ps" "unat pos = start_of ed ps j + piece_len ed (ps ! j)" for j
  proof -
    have "\<not> j < k" using k(5) that by auto
    then have "start_of ed ps k + piece_len ed (ps ! k) \<le> unat pos"
      using end_mono [of k j ps ed] that by simp
    then show ?thesis using k(4) by simp
  qed
  have hd: "ps ! 0 = ed_begin" using assms(1,2) by (cases ps) auto
  have zero: "k = 0" if "pos = 0"
  proof (rule ccontr)
    assume "k \<noteq> 0"
    then have "start_of ed ps 0 + piece_len ed (ps ! 0) < unat pos" using k(5) by simp
    then show False using that by simp
  qed
  have total: "unat pos - start_of ed ps k = piece_len ed (ps ! k) \<and>
        (\<forall>j<length ps. k < j \<longrightarrow> piece_len ed (ps ! j) = 0)"
    if t: "unat pos = sum_list (map (piece_len ed) ps)"
  proof -
    have "start_of ed ps (Suc k) \<le> start_of ed ps (length ps)" using k(1) by (intro start_of_mono) simp
    then have e: "start_of ed ps (Suc k) = sum_list (map (piece_len ed) ps)"
      using k(4) t k(1) by (simp add: start_of_Suc start_of_total)
    then show ?thesis using tail_zero [OF k(1) e] k(1) t by (auto simp: start_of_Suc)
  qed
  have c6: "\<forall>j<k. \<not> (start_of ed ps j \<le> unat pos \<and> unat pos \<le> start_of ed ps j + piece_len ed (ps ! j))"
    using k(5) by fastforce
  have c7: "(\<exists>j<length ps. unat pos = start_of ed ps j + piece_len ed (ps ! j)) \<longrightarrow>
        unat pos - start_of ed ps k = piece_len ed (ps ! k)"
    using bnd by blast
  have c8: "pos = 0 \<longrightarrow> ps ! k = ed_begin"
    using zero hd by blast
  have c9: "unat pos = sum_list (map (piece_len ed) ps) \<longrightarrow>
        unat pos - start_of ed ps k = piece_len ed (ps ! k) \<and>
        (\<forall>j<length ps. k < j \<longrightarrow> piece_len ed (ps ! j) = 0)"
    using total by blast
  show ?thesis
    using k(1,2) off k(3,4) c6 c7 c8 c9 by blast
qed

theorem piece_get_first_containing_witness:
  "piece_path midway_document ed_begin ([1, 7, 8, 9] @ [2]) \<and>
   sum_list (map (piece_len midway_document) [1, 7, 8, 9]) = 9 \<and>
   piece_get midway_document 6 = Some \<lparr>l_piece = 8, l_off = 3\<rparr>"
proof -
  have p: "piece_path midway_document ed_begin ([1, 7, 8, 9] @ [2])"
    by (simp add: midway_document_def abcdef_document_def editor_defs loop_simps Let_def)
  have s: "sum_list (map (piece_len midway_document) [1, 7, 8, 9]) = 9"
    by (simp add: piece_len_def midway_document_def abcdef_document_def editor_defs loop_simps Let_def)
  have g: "piece_get midway_document 6 = Some \<lparr>l_piece = 8, l_off = 3\<rparr>"
    by (simp add: midway_document_def abcdef_document_def editor_defs loop_simps Let_def)
  have ne: "[1, 7, 8, 9] \<noteq> ([] :: addr list)"
    by simp
  have fits: "sum_list (map (piece_len midway_document) [1, 7, 8, 9]) < 2 ^ 64"
    using s by simp
  have le: "unat (6 :: size_t) \<le> sum_list (map (piece_len midway_document) [1, 7, 8, 9])"
    using s by simp
  from piece_get_first_containing [OF p ne fits le] obtain k where
    "piece_get midway_document 6 =
       Some \<lparr>l_piece = [1, 7, 8, 9] ! k,
             l_off = 6 - of_nat (start_of midway_document [1, 7, 8, 9] k)\<rparr>"
    by blast
  with g have "l_piece \<lparr>l_piece = [1, 7, 8, 9] ! k,
             l_off = (6 :: size_t) - of_nat (start_of midway_document [1, 7, 8, 9] k)\<rparr> = 8"
    by simp
  with p s g show ?thesis
    by blast
qed

text \<open>
  C7, as stated, fails in the empty document: \<open>locate(size)\<close> is \<open>locate(0)\<close> and
  returns the begin sentinel, not a real piece.
\<close>

theorem piece_get_empty_document:
  "piece_get empty_document (ed_size empty_document) = Some \<lparr>l_piece = ed_begin, l_off = 0\<rparr>"
  by (simp add: empty_document_def editor_defs loop_simps)

section \<open>Views of the piece graph, the redo drain and the midway insert\<close>

lemma strip_global_simps [simp]:
  "p_prev (strip_global pc) = p_prev pc" "p_next (strip_global pc) = p_next pc"
  "p_content (strip_global pc) = p_content pc" "p_len (strip_global pc) = p_len pc"
  "p_editor (strip_global pc) = p_editor pc" "p_index (strip_global pc) = p_index pc"
  "strip_global (pc\<lparr>p_global_prev := x\<rparr>) = strip_global pc"
  "strip_global (pc\<lparr>p_global_next := y\<rparr>) = strip_global pc"
  "strip_global (strip_global pc) = strip_global pc"
  by (simp_all add: strip_global_def)

lemma pview_None [simp]: "pview ed q = None \<longleftrightarrow> get_piece ed q = None"
  by (simp add: pview_def)

lemma pview_0 [simp]: "pview ed 0 = None"
  by (simp add: pview_def get_piece_def)

lemma pview_Some: "get_piece ed q = Some pc \<Longrightarrow> pview ed q = Some (strip_global pc)"
  by (simp add: pview_def)

lemma pview_SomeD: "pview ed q = Some v \<Longrightarrow> \<exists>pc. get_piece ed q = Some pc \<and> v = strip_global pc"
  by (auto simp: pview_def)

lemma kept_refl: "kept ed ed" by (simp add: kept_def)

lemma kept_trans: "kept a b \<Longrightarrow> kept b c \<Longrightarrow> kept a c"
  unfolding kept_def by (metis pview_None)

lemma free_frame_refl: "free_frame ed ed"
  by (simp add: free_frame_def kept_refl)

lemma free_frame_trans: "free_frame a b \<Longrightarrow> free_frame b c \<Longrightarrow> free_frame a c"
  unfolding free_frame_def
  apply (intro conjI)
      apply simp
     apply (blast intro: kept_trans)
    apply metis
   apply metis
  apply metis
  done

lemma piece_free_frame: "piece_free ed p = Some ed' \<Longrightarrow> free_frame ed ed'"
  apply (cases "p = 0")
   apply (simp add: piece_free_def free_frame_refl)
  apply (auto simp: piece_free_def free_frame_def free_rest_def kept_def pview_def get_piece_def set_piece_def Let_def
      split: Option.bind_splits if_splits option.splits)
  done

lemma piece_free_freed: "piece_free ed p = Some ed' \<Longrightarrow> p \<noteq> 0 \<Longrightarrow> heap_piece ed' p = None"
  by (auto simp: piece_free_def Let_def split: Option.bind_splits if_splits)

lemma pview_cong: "heap_piece b = heap_piece c \<Longrightarrow> pview b = pview c"
  by (rule ext) (simp add: pview_def get_piece_def)

lemma kept_cong: "kept a b \<Longrightarrow> heap_piece b = heap_piece c \<Longrightarrow> kept a c"
  using pview_cong [of b c] by (simp add: kept_def)

lemma free_frame_change_del: "free_frame ed ed' \<Longrightarrow> free_frame ed (ed'\<lparr>heap_change := (heap_change ed')(c := None)\<rparr>)"
  unfolding free_frame_def by (auto simp: free_rest_def elim: kept_cong)

lemma free_frame_action_del: "free_frame ed ed' \<Longrightarrow> free_frame ed (ed'\<lparr>heap_action := (heap_action ed')(a := None)\<rparr>)"
  unfolding free_frame_def by (auto simp: free_rest_def elim: kept_cong)

lemma free_frame_redo: "free_frame ed ed' \<Longrightarrow> free_frame ed (ed'\<lparr>ed_redo := r\<rparr>)"
  unfolding free_frame_def by (auto simp: free_rest_def elim: kept_cong)

lemma change_free_frame: 
  assumes "change_free ed c = Some ed'" shows "free_frame ed ed'"
proof -
  from assms obtain cv e1 cv1 e2 where
    s: "get_change ed c = Some cv" "piece_free ed (s_start (c_new cv)) = Some e1"
       "get_change e1 c = Some cv1"
       "(if s_start (c_new cv1) \<noteq> s_end (c_new cv1) then piece_free e1 (s_end (c_new cv1)) else Some e1) = Some e2"
       "ed' = e2\<lparr>heap_change := (heap_change e2)(c := None)\<rparr>"
    by (auto simp: change_free_def split: Option.bind_splits)
  have f1: "free_frame ed e1" using s(2) by (rule piece_free_frame)
  have f2: "free_frame e1 e2" using s(4) by (auto split: if_splits intro: piece_free_frame free_frame_refl)
  show ?thesis unfolding s(5) by (intro free_frame_change_del free_frame_trans [OF f1 f2])
qed

lemma action_free_loop_frame: "action_free_loop ed c = Some ed' \<Longrightarrow> free_frame ed ed'"
proof (induct rule: action_free_loop.raw_induct[rotated 1, consumes 1, case_names step])
  case (step loop ed c ed')
  show ?case
  proof (cases "c = 0")
    case True then show ?thesis using step(2) by (simp add: free_frame_refl)
  next
    case False
    with step(2) obtain cv e1 where s: "get_change ed c = Some cv" "change_free ed c = Some e1" "loop e1 (c_next cv) = Some ed'"
      by (auto split: option.splits)
    show ?thesis using free_frame_trans [OF change_free_frame [OF s(2)] step(1) [OF s(3)]] .
  qed
qed

lemma action_free_frame: "action_free ed a = Some ed' \<Longrightarrow> free_frame ed ed'"
  by (auto simp: action_free_def free_frame_refl split: if_splits Option.bind_splits
      intro!: free_frame_action_del dest!: action_free_loop_frame)

lemma action_pop_redo_frame: "action_pop ed Redo_stack = Some (a, ed') \<Longrightarrow> free_frame ed ed'"
  by (auto simp: action_pop_def stack_get_def stack_set_def Let_def free_frame_refl
      split: if_splits Option.bind_splits intro!: free_frame_redo)

lemma action_alloc_loop_frame: "action_alloc_loop ed = Some ed' \<Longrightarrow> free_frame ed ed' \<and> ed_redo ed' = 0"
proof (induct rule: action_alloc_loop.raw_induct[rotated 1, consumes 1, case_names step])
  case (step loop ed ed')
  from step(2) obtain old e1 where p: "action_pop ed Redo_stack = Some (old, e1)"
    by (cases "action_pop ed Redo_stack") auto
  show ?case
  proof (cases "old = 0")
    case True
    then have "ed' = e1" using step(2) p by simp
    moreover have "ed_redo e1 = 0" using p True
      by (auto simp: action_pop_def stack_get_def stack_set_def Let_def split: if_splits Option.bind_splits)
    ultimately show ?thesis using action_pop_redo_frame [OF p] by simp
  next
    case False
    with step(2) p obtain e2 where s: "action_free e1 old = Some e2" "loop e2 = Some ed'"
      by (auto split: option.splits)
    from step(1) [OF s(2)] have "free_frame e2 ed'" "ed_redo ed' = 0" by simp_all
    then show ?thesis
      using free_frame_trans [OF action_pop_redo_frame [OF p] free_frame_trans [OF action_free_frame [OF s(1)]]]
      by simp
  qed
qed

lemma pview_get:
  assumes "pview ed q = Some v"
  shows "\<exists>pc. get_piece ed q = Some pc \<and> p_prev pc = p_prev v \<and> p_next pc = p_next v \<and>
           p_content pc = p_content v \<and> p_len pc = p_len v"
  using assms by (auto simp: pview_def)

lemma set_piece_view:
  assumes "set_piece ed q f = Some ed'" "\<And>pc. strip_global (f pc) = g (strip_global pc)"
  shows "pview ed' = (pview ed)(q \<mapsto> g (the (pview ed q))) \<and> pview ed q \<noteq> None \<and> obs ed' = obs ed \<and>
         next_addr ed' = next_addr ed \<and> alloc_plan ed' = alloc_plan ed \<and> pieces ed' = pieces ed \<and>
         piece_count ed' = piece_count ed"
  using assms
  by (auto simp: set_piece_def pview_def get_piece_def fun_eq_iff obs_def split: option.splits if_splits)

lemma piece_init_view:
  assumes "piece_init ed q prev next content len = Some ed'"
  shows "pview ed' = (pview ed)(q \<mapsto> (the (pview ed q))\<lparr>p_prev := prev, p_next := next, p_content := content, p_len := len\<rparr>) \<and>
         pview ed q \<noteq> None \<and> obs ed' = obs ed \<and>
         next_addr ed' = next_addr ed \<and> alloc_plan ed' = alloc_plan ed \<and> pieces ed' = pieces ed \<and>
         piece_count ed' = piece_count ed"
  using assms unfolding piece_init_def
  by (rule set_piece_view [where g = "\<lambda>v. v\<lparr>p_prev := prev, p_next := next, p_content := content, p_len := len\<rparr>"])
     (simp add: strip_global_def)

lemma piece_alloc_view:
  assumes "piece_alloc ed = Some (n, ed')" "n \<noteq> 0"
  shows "n = next_addr ed \<and> next_addr ed' = Suc n \<and>
    pview ed' = (pview ed)(n \<mapsto> fresh_view (piece_count ed + 1)) \<and> obs ed' = obs ed \<and>
    pieces ed' = n \<and> piece_count ed' = piece_count ed + 1"
  using assms
  by (auto simp: piece_alloc_def calloc_def alloc_ok_def Let_def set_piece_def get_piece_def pview_def
      fresh_view_def strip_global_def obs_def fun_eq_iff
      split: prod.splits if_splits Option.bind_splits list.splits option.splits)


lemma vseg_append: "vseg V p (xs @ ys) q \<longleftrightarrow> (\<exists>m. vseg V p xs m \<and> vseg V m ys q)"
  by (induction xs arbitrary: p) (auto split: option.splits)

lemma vseg_hd: "vseg V p xs q \<Longrightarrow> xs \<noteq> [] \<Longrightarrow> hd xs = p"
  by (cases xs) auto

lemma vseg_alloc: "vseg V p xs q \<Longrightarrow> x \<in> set xs \<Longrightarrow> V x \<noteq> None"
  by (induction xs arbitrary: p) (auto split: option.splits)

lemma vseg_upd_other: "x \<notin> set xs \<Longrightarrow> vseg (V(x := v)) p xs q = vseg V p xs q"
  by (induction xs arbitrary: p) (auto split: option.splits)

lemma vseg_cong: "(\<And>x. x \<in> set xs \<Longrightarrow> map_option p_next (V' x) = map_option p_next (V x)) \<Longrightarrow>
   vseg V' p xs q = vseg V p xs q"
proof (induction xs arbitrary: p)
  case Nil then show ?case by simp
next
  case (Cons a xs)
  have "map_option p_next (V' a) = map_option p_next (V a)" using Cons.prems by simp
  moreover have "vseg V' r xs q = vseg V r xs q" for r using Cons by simp
  ultimately show ?case by (cases "V a"; cases "V' a") auto
qed

text \<open>a path to NULL never visits an address twice\<close>

lemma vseg_not_in_tail:
  assumes "V 0 = None" "vseg V p (x # xs) 0" shows "x \<notin> set xs"
  using assms
proof (induction xs arbitrary: p x rule: length_induct)
  case (1 xs)
  show ?case
  proof
    assume "x \<in> set xs"
    then obtain ys zs where s: "xs = ys @ x # zs" by (auto simp: in_set_conv_decomp)
    from "1.prems"(2) have "vseg V x (x # ys @ x # zs) 0" using s by (auto split: option.splits)
    then obtain v where v: "V x = Some v" "vseg V (p_next v) (ys @ x # zs) 0" by (auto split: option.splits)
    then obtain m where m: "vseg V (p_next v) ys m" "vseg V m (x # zs) 0" by (auto simp: vseg_append)
    then have mx: "m = x" by (auto split: option.splits)
    from m(2) mx v have z: "vseg V (p_next v) zs 0" by auto
    (* two paths from p_next v to 0: ys @ x # zs and zs *)
    have "length zs < length xs" using s by simp
    have "\<And>r as bs. vseg V r as 0 \<Longrightarrow> vseg V r bs 0 \<Longrightarrow> as = bs"
    proof -
      fix r as bs show "vseg V r as 0 \<Longrightarrow> vseg V r bs 0 \<Longrightarrow> as = bs"
      proof (induction as arbitrary: r bs)
        case Nil then show ?case using assms(1) by (cases bs) (auto split: option.splits)
      next
        case (Cons a as) then show ?case using assms(1) by (cases bs) (auto split: option.splits)
      qed
    qed
    from this [OF v(2) z] show False by simp
  qed
qed

lemma vseg_unique: "V 0 = None \<Longrightarrow> vseg V r as 0 \<Longrightarrow> vseg V r bs 0 \<Longrightarrow> as = bs"
proof (induction as arbitrary: r bs)
  case Nil then show ?case by (cases bs) (auto split: option.splits)
next
  case (Cons a as) then show ?case by (cases bs) (auto split: option.splits)
qed

lemma vseg_distinct: "V 0 = None \<Longrightarrow> vseg V p xs 0 \<Longrightarrow> distinct xs"
proof (induction xs arbitrary: p)
  case Nil then show ?case by simp
next
  case (Cons x xs)
  then show ?case using vseg_not_in_tail [OF Cons.prems] by (auto split: option.splits)
qed

lemma vseg_nonzero: "V 0 = None \<Longrightarrow> vseg V p xs q \<Longrightarrow> 0 \<notin> set xs"
proof (induction xs arbitrary: p)
  case Nil then show ?case by simp
next
  case (Cons a xs)
  then have "V a \<noteq> None" by (auto split: option.splits)
  then have "a \<noteq> 0" using Cons.prems(1) by metis
  then show ?case using Cons by (auto split: option.splits)
qed

lemma upd_ok_simps [simp]: "upd_ok (\<lambda>q. q\<lparr>p_next := x\<rparr>)" "upd_ok (\<lambda>q. q\<lparr>p_prev := x\<rparr>)"
  by (simp_all add: upd_ok_def strip_global_def)

lemma set_piece_Some_view:
  assumes "upd_ok f" "set_piece ed q f = Some ed'"
  shows "vset (pview ed) q f = Some (pview ed') \<and> obs ed' = obs ed \<and> same_al ed ed'"
  using assms
  by (auto simp: upd_ok_def set_piece_def vset_def pview_def get_piece_def fun_eq_iff obs_def same_al_def
      split: option.splits if_splits)

lemma vset_Some_set_piece:
  assumes "upd_ok f" "vset (pview ed) q f = Some V'"
  shows "\<exists>ed'. set_piece ed q f = Some ed' \<and> pview ed' = V' \<and> obs ed' = obs ed \<and> same_al ed ed'"
  using assms
  by (auto simp: upd_ok_def set_piece_def vset_def pview_def get_piece_def fun_eq_iff obs_def same_al_def
      split: option.splits if_splits)

lemma get_piece_Some_view: "get_piece ed q = Some pc \<Longrightarrow> pview ed q = Some (strip_global pc)"
  by (simp add: pview_def)

lemma view_Some_get_piece: "pview ed q = Some v \<Longrightarrow> \<exists>pc. get_piece ed q = Some pc \<and> strip_global pc = v"
  by (auto simp: pview_def)

lemma same_al_refl: "same_al ed ed" by (simp add: same_al_def)

lemma same_al_trans: "same_al a b \<Longrightarrow> same_al b c \<Longrightarrow> same_al a c" by (simp add: same_al_def)

lemma obs_size: "obs a = obs b \<Longrightarrow> obs (a\<lparr>ed_size := n\<rparr>) = obs (b\<lparr>ed_size := n\<rparr>)"
  by (simp add: obs_def)

lemma same_al_size: "same_al a b \<Longrightarrow> same_al a (b\<lparr>ed_size := n\<rparr>)"
  by (simp add: same_al_def)

lemma pview_size [simp]: "pview (a\<lparr>ed_size := n\<rparr>) = pview a"
  by (rule pview_cong) simp

lemma span_swap_Some_view:
  assumes "span_swap ed old new = Some ed'"
  shows "swap_view (pview ed) old new = Some (pview ed') \<and>
         obs ed' = obs (ed\<lparr>ed_size := ed_size ed - s_len old + s_len new\<rparr>) \<and> same_al ed ed'"
proof (cases "s_len old = 0 \<and> s_len new = 0")
  case True
  then show ?thesis using assms by (auto simp: span_swap_def swap_view_def obs_def same_al_def)
next
  case False
  show ?thesis
  proof (cases "s_len old = 0")
    case True
    with False assms obtain ns e1 ne e2 where
      s: "get_piece ed (s_start new) = Some ns" "set_piece ed (p_prev ns) (\<lambda>q. q\<lparr>p_next := s_start new\<rparr>) = Some e1"
         "get_piece e1 (s_end new) = Some ne" "set_piece e1 (p_next ne) (\<lambda>q. q\<lparr>p_prev := s_end new\<rparr>) = Some e2"
         "ed' = e2\<lparr>ed_size := ed_size e2 - s_len old + s_len new\<rparr>"
      by (auto simp: span_swap_def split: Option.bind_splits)
    note a = set_piece_Some_view [OF _ s(2)] set_piece_Some_view [OF _ s(4)]
             get_piece_Some_view [OF s(1)] get_piece_Some_view [OF s(3)]
    have "swap_view (pview ed) old new = Some (pview ed')"
      using False True a by (simp add: swap_view_def s(5))
    moreover have "obs e2 = obs ed" "same_al ed e2" "ed_size e2 = ed_size ed"
      using a by (auto simp: same_al_def obs_def)
    ultimately show ?thesis unfolding s(5) by (auto simp: obs_def same_al_def)
  next
    case o: False
    show ?thesis
    proof (cases "s_len new = 0")
      case True
      with o assms obtain os oe e1 oe1 os1 e2 where
        s: "get_piece ed (s_start old) = Some os" "get_piece ed (s_end old) = Some oe"
           "set_piece ed (p_prev os) (\<lambda>q. q\<lparr>p_next := p_next oe\<rparr>) = Some e1"
           "get_piece e1 (s_end old) = Some oe1" "get_piece e1 (s_start old) = Some os1"
           "set_piece e1 (p_next oe1) (\<lambda>q. q\<lparr>p_prev := p_prev os1\<rparr>) = Some e2"
           "ed' = e2\<lparr>ed_size := ed_size e2 - s_len old + s_len new\<rparr>"
        by (auto simp: span_swap_def split: Option.bind_splits)
      note a = set_piece_Some_view [OF _ s(3)] set_piece_Some_view [OF _ s(6)]
             get_piece_Some_view [OF s(1)] get_piece_Some_view [OF s(2)]
             get_piece_Some_view [OF s(4)] get_piece_Some_view [OF s(5)]
      have "swap_view (pview ed) old new = Some (pview ed')"
        using o True a by (simp add: swap_view_def s(7))
      moreover have "obs e2 = obs ed" "same_al ed e2" "ed_size e2 = ed_size ed"
        using a by (auto simp: same_al_def obs_def)
      ultimately show ?thesis unfolding s(7) by (auto simp: obs_def same_al_def)
    next
      case n: False
      with o assms obtain os e1 oe e2 where
        s: "get_piece ed (s_start old) = Some os" "set_piece ed (p_prev os) (\<lambda>q. q\<lparr>p_next := s_start new\<rparr>) = Some e1"
           "get_piece e1 (s_end old) = Some oe" "set_piece e1 (p_next oe) (\<lambda>q. q\<lparr>p_prev := s_end new\<rparr>) = Some e2"
           "ed' = e2\<lparr>ed_size := ed_size e2 - s_len old + s_len new\<rparr>"
        by (auto simp: span_swap_def split: Option.bind_splits)
      note a = set_piece_Some_view [OF _ s(2)] set_piece_Some_view [OF _ s(4)]
             get_piece_Some_view [OF s(1)] get_piece_Some_view [OF s(3)]
      have "swap_view (pview ed) old new = Some (pview ed')"
        using o n a by (simp add: swap_view_def s(5))
      moreover have "obs e2 = obs ed" "same_al ed e2" "ed_size e2 = ed_size ed"
        using a by (auto simp: same_al_def obs_def)
      ultimately show ?thesis unfolding s(5) by (auto simp: obs_def same_al_def)
    qed
  qed
qed

lemma vset_next:
  "vset (pview ed) q (\<lambda>q. q\<lparr>p_next := x\<rparr>) = Some V' \<Longrightarrow>
   \<exists>ed'. set_piece ed q (\<lambda>q. q\<lparr>p_next := x\<rparr>) = Some ed' \<and> pview ed' = V'"
  using vset_Some_set_piece [of "\<lambda>q. q\<lparr>p_next := x\<rparr>" ed q V'] by auto

lemma vset_prev:
  "vset (pview ed) q (\<lambda>q. q\<lparr>p_prev := x\<rparr>) = Some V' \<Longrightarrow>
   \<exists>ed'. set_piece ed q (\<lambda>q. q\<lparr>p_prev := x\<rparr>) = Some ed' \<and> pview ed' = V'"
  using vset_Some_set_piece [of "\<lambda>q. q\<lparr>p_prev := x\<rparr>" ed q V'] by auto

lemma span_swap_total:
  assumes "swap_view (pview ed) old new = Some V'"
  shows "\<exists>ed'. span_swap ed old new = Some ed'"
proof (cases "s_len old = 0 \<and> s_len new = 0")
  case True
  then show ?thesis by (simp add: span_swap_def)
next
  case False
  show ?thesis
  proof (cases "s_len old = 0")
    case True
    with False assms obtain ns V1 ne where
      s: "pview ed (s_start new) = Some ns" "vset (pview ed) (p_prev ns) (\<lambda>q. q\<lparr>p_next := s_start new\<rparr>) = Some V1"
         "V1 (s_end new) = Some ne" "vset V1 (p_next ne) (\<lambda>q. q\<lparr>p_prev := s_end new\<rparr>) = Some V'"
      by (auto simp: swap_view_def split: Option.bind_splits)
    from view_Some_get_piece [OF s(1)] obtain pns where pns: "get_piece ed (s_start new) = Some pns" "strip_global pns = ns" by blast
    from vset_next [OF s(2)] obtain e1 where e1: "set_piece ed (p_prev ns) (\<lambda>q. q\<lparr>p_next := s_start new\<rparr>) = Some e1" "pview e1 = V1" by blast
    from view_Some_get_piece [of e1 "s_end new" ne] s(3) e1 obtain pne where pne: "get_piece e1 (s_end new) = Some pne" "strip_global pne = ne" by auto
    have v4: "vset (pview e1) (p_next ne) (\<lambda>q. q\<lparr>p_prev := s_end new\<rparr>) = Some V'" using s(4) e1(2) by simp
      from vset_prev [OF v4] obtain e2 where e2: "set_piece e1 (p_next ne) (\<lambda>q. q\<lparr>p_prev := s_end new\<rparr>) = Some e2" by blast
    have "p_prev pns = p_prev ns" "p_next pne = p_next ne" using pns pne by auto
    then show ?thesis using False True pns e1 pne e2 by (simp add: span_swap_def)
  next
    case o: False
    show ?thesis
    proof (cases "s_len new = 0")
      case True
      with o assms obtain os oe V1 oe1 os1 where
        s: "pview ed (s_start old) = Some os" "pview ed (s_end old) = Some oe"
           "vset (pview ed) (p_prev os) (\<lambda>q. q\<lparr>p_next := p_next oe\<rparr>) = Some V1"
           "V1 (s_end old) = Some oe1" "V1 (s_start old) = Some os1"
           "vset V1 (p_next oe1) (\<lambda>q. q\<lparr>p_prev := p_prev os1\<rparr>) = Some V'"
        by (auto simp: swap_view_def split: Option.bind_splits)
      from view_Some_get_piece [OF s(1)] obtain pos where pos: "get_piece ed (s_start old) = Some pos" "strip_global pos = os" by blast
      from view_Some_get_piece [OF s(2)] obtain poe where poe: "get_piece ed (s_end old) = Some poe" "strip_global poe = oe" by blast
      from vset_next [OF s(3)] obtain e1 where e1: "set_piece ed (p_prev os) (\<lambda>q. q\<lparr>p_next := p_next oe\<rparr>) = Some e1" "pview e1 = V1" by auto
      from view_Some_get_piece [of e1 "s_end old" oe1] s(4) e1 obtain poe1 where poe1: "get_piece e1 (s_end old) = Some poe1" "strip_global poe1 = oe1" by auto
      from view_Some_get_piece [of e1 "s_start old" os1] s(5) e1 obtain pos1 where pos1: "get_piece e1 (s_start old) = Some pos1" "strip_global pos1 = os1" by auto
      have v4: "vset (pview e1) (p_next oe1) (\<lambda>q. q\<lparr>p_prev := p_prev os1\<rparr>) = Some V'" using s(6) e1(2) by simp
      from vset_prev [OF v4] obtain e2 where e2: "set_piece e1 (p_next oe1) (\<lambda>q. q\<lparr>p_prev := p_prev os1\<rparr>) = Some e2" by blast
      have "p_prev pos = p_prev os" "p_next poe = p_next oe" "p_next poe1 = p_next oe1" "p_prev pos1 = p_prev os1"
        using pos poe poe1 pos1 by auto
      then show ?thesis using o True pos poe e1 poe1 pos1 e2 by (simp add: span_swap_def)
    next
      case n: False
      with o assms obtain os V1 oe where
        s: "pview ed (s_start old) = Some os" "vset (pview ed) (p_prev os) (\<lambda>q. q\<lparr>p_next := s_start new\<rparr>) = Some V1"
           "V1 (s_end old) = Some oe" "vset V1 (p_next oe) (\<lambda>q. q\<lparr>p_prev := s_end new\<rparr>) = Some V'"
        by (auto simp: swap_view_def split: Option.bind_splits)
      from view_Some_get_piece [OF s(1)] obtain pos where pos: "get_piece ed (s_start old) = Some pos" "strip_global pos = os" by blast
      from vset_next [OF s(2)] obtain e1 where e1: "set_piece ed (p_prev os) (\<lambda>q. q\<lparr>p_next := s_start new\<rparr>) = Some e1" "pview e1 = V1" by auto
      from view_Some_get_piece [of e1 "s_end old" oe] s(3) e1 obtain poe where poe: "get_piece e1 (s_end old) = Some poe" "strip_global poe = oe" by auto
      have v4: "vset (pview e1) (p_next oe) (\<lambda>q. q\<lparr>p_prev := s_end new\<rparr>) = Some V'" using s(4) e1(2) by simp
      from vset_prev [OF v4] obtain e2 where e2: "set_piece e1 (p_next oe) (\<lambda>q. q\<lparr>p_prev := s_end new\<rparr>) = Some e2" by blast
      have "p_prev pos = p_prev os" "p_next poe = p_next oe" using pos poe by auto
      then show ?thesis using o n pos e1 poe e2 by (simp add: span_swap_def)
    qed
  qed
qed

lemma vseg_last: "vseg V p xs m \<Longrightarrow> xs \<noteq> [] \<Longrightarrow> map_option p_next (V (last xs)) = Some m"
  by (induction xs arbitrary: p) (auto split: option.splits)

lemma vseg_snoc: "vseg V p (xs @ [x]) m \<longleftrightarrow> vseg V p xs x \<and> map_option p_next (V x) = Some m"
  by (induction xs arbitrary: p) (auto split: option.splits)

lemma vseg_head_alloc: "vseg V p (x # xs) q \<Longrightarrow> V x \<noteq> None"
  by (auto split: option.splits)

lemma relink_swappable:
  assumes sw: "swappable V pre X Y post"
    and L: "L = last pre" and R: "R = hd post" and lv: "V L = Some lv" and rv: "V R = Some rv"
    and V': "V' = (V(L \<mapsto> lv\<lparr>p_next := hd (Y @ post)\<rparr>))(R \<mapsto> rv\<lparr>p_prev := last (pre @ Y)\<rparr>)"
  shows "swappable V' pre Y X post" "\<forall>q. map_option strip_links (V' q) = map_option strip_links (V q)"
proof -
  from sw have V0: "V 0 = None" and pre: "pre \<noteq> []" and post: "post \<noteq> []"
    and chain: "vseg V (hd pre) (pre @ X @ post) 0"
    and ysg: "vseg V (hd (Y @ post)) Y (hd post)"
    and dj: "set Y \<inter> set (pre @ X @ post) = {}" and dy: "distinct Y" and zy: "0 \<notin> set Y"
    and px: "X \<noteq> [] \<longrightarrow> map_option p_prev (V (hd X)) = Some (last pre)"
    and py: "Y \<noteq> [] \<longrightarrow> map_option p_prev (V (hd Y)) = Some (last pre)"
    by (simp_all add: swappable_def)
  have dc: "distinct (pre @ X @ post)" using vseg_distinct [OF V0 chain] .
  have zc: "0 \<notin> set (pre @ X @ post)" using vseg_nonzero [OF V0 chain] .
  have Lin: "L \<in> set pre" using L pre by simp
  have Rin: "R \<in> set post" using R post by simp
  have LR: "L \<noteq> R" using dc Lin Rin by auto
  have LX: "L \<notin> set X" "L \<notin> set post" "L \<notin> set Y" using dc dj Lin by auto
  have RX: "R \<notin> set X" "R \<notin> set pre" "R \<notin> set Y" using dc dj Rin by auto
  have "L \<in> set (pre @ X @ post)" "R \<in> set (pre @ X @ post)" using Lin Rin by simp_all
  then have L0: "L \<noteq> 0" "R \<noteq> 0" using zc by metis+
  obtain pre' where pre': "pre = pre' @ [L]" using pre L by (metis append_butlast_last_id)
  obtain post' where post': "post = R # post'" using post R by (cases post) auto
  from chain obtain m1 m2 where sg: "vseg V (hd pre) pre m1" "vseg V m1 X m2" "vseg V m2 post 0"
    by (auto simp: vseg_append)
  have m2: "m2 = R" using sg(3) post' by auto
  have m1: "m1 = hd (X @ post)"
  proof (cases X)
    case Nil then show ?thesis using sg(2) m2 R by simp
  next
    case (Cons a as) then show ?thesis using sg(2) by simp
  qed
  have nxt: "map_option p_next (V' x) = map_option p_next (V x)" if "x \<noteq> L" for x
    using that V' rv by auto
  have prv: "map_option p_prev (V' x) = map_option p_prev (V x)" if "x \<noteq> R" for x
    using that V' lv by auto
  have V'0: "V' 0 = None" using V0 L0 V' by simp
  have s_pre': "vseg V' (hd pre) pre' L"
  proof -
    have "vseg V (hd pre) pre' L" using sg(1) pre' by (simp add: vseg_snoc)
    moreover have "L \<notin> set pre'" using dc pre' by auto
    moreover have "vseg V' (hd pre) pre' L = vseg V (hd pre) pre' L"
      by (rule vseg_cong) (metis nxt \<open>L \<notin> set pre'\<close>)
    ultimately show ?thesis by simp
  qed
  have s_pre: "vseg V' (hd pre) pre (hd (Y @ post))"
    using s_pre' pre' V' LR by (simp add: vseg_snoc)
  have s_Y: "vseg V' (hd (Y @ post)) Y R"
  proof -
    have "vseg V' (hd (Y @ post)) Y R = vseg V (hd (Y @ post)) Y R"
      by (rule vseg_cong) (metis nxt LX)
    then show ?thesis using ysg R by simp
  qed
  have s_post: "vseg V' R post 0"
  proof -
    have "vseg V' R post 0 = vseg V R post 0"
      by (rule vseg_cong) (metis nxt LX)
    then show ?thesis using sg(3) m2 by simp
  qed
  have c1: "vseg V' (hd pre) (pre @ Y @ post) 0"
  proof -
    have "hd (Y @ post) = hd (Y @ R # post')" using post' by simp
    have "\<exists>m. vseg V' (hd (Y @ post)) Y m \<and> vseg V' m post 0" using s_Y s_post by blast
    then have "vseg V' (hd (Y @ post)) (Y @ post) 0" by (simp add: vseg_append)
    then show ?thesis using s_pre by (auto simp: vseg_append)
  qed
  have c2: "vseg V' (hd (X @ post)) X (hd post)"
  proof -
    have "vseg V' m1 X R = vseg V m1 X R"
      by (rule vseg_cong) (metis nxt LX)
    then show ?thesis using sg(2) m1 m2 R by simp
  qed
  have c3: "set X \<inter> set (pre @ Y @ post) = {}" "distinct X" "0 \<notin> set X"
    using dc dj zc by auto
  have hx: "hd X \<noteq> R" if "X \<noteq> []" using that RX by (cases X) auto
  have hy: "hd Y \<noteq> R" if "Y \<noteq> []" using that RX by (cases Y) auto
  have c4: "X \<noteq> [] \<longrightarrow> map_option p_prev (V' (hd X)) = Some (last pre)"
    using px prv hx by auto
  have c5: "Y \<noteq> [] \<longrightarrow> map_option p_prev (V' (hd Y)) = Some (last pre)"
    using py prv hy by auto
  show "swappable V' pre Y X post"
    unfolding swappable_def using V'0 pre post c1 c2 c3 c4 c5 by blast
  show "\<forall>q. map_option strip_links (V' q) = map_option strip_links (V q)"
    using V' lv rv by (auto simp: strip_links_def)
qed

lemma swap_view_exchange:
  assumes sw: "swappable V pre X Y post" and cx: "covers sx X" and cy: "covers sy Y"
  shows "\<exists>V'. swap_view V sx sy = Some V' \<and> swappable V' pre Y X post \<and>
           (\<forall>q. map_option strip_links (V' q) = map_option strip_links (V q))"
proof (cases "X = [] \<and> Y = []")
  case True
  then have "swap_view V sx sy = Some V" using cx cy by (simp add: swap_view_def covers_def)
  then show ?thesis using sw True by auto
next
  case ne: False
  from sw have V0: "V 0 = None" and pre: "pre \<noteq> []" and post: "post \<noteq> []"
    and chain: "vseg V (hd pre) (pre @ X @ post) 0"
    and ysg: "vseg V (hd (Y @ post)) Y (hd post)"
    and dj: "set Y \<inter> set (pre @ X @ post) = {}"
    and px: "X \<noteq> [] \<longrightarrow> map_option p_prev (V (hd X)) = Some (last pre)"
    and py: "Y \<noteq> [] \<longrightarrow> map_option p_prev (V (hd Y)) = Some (last pre)"
    by (simp_all add: swappable_def)
  define L where "L = last pre"
  define R where "R = hd post"
  have dc: "distinct (pre @ X @ post)" using vseg_distinct [OF V0 chain] .
  have Lin: "L \<in> set pre" using L_def pre by simp
  have Rin: "R \<in> set post" using R_def post by simp
  have LR: "L \<noteq> R" using dc Lin Rin by auto
  have LX: "L \<notin> set X" "L \<notin> set post" "L \<notin> set Y" using dc dj Lin by auto
  have RX: "R \<notin> set X" "R \<notin> set pre" "R \<notin> set Y" using dc dj Rin by auto
  obtain lv where lv: "V L = Some lv" using vseg_alloc [OF chain, of L] Lin by auto
  obtain rv where rv: "V R = Some rv" using vseg_alloc [OF chain, of R] Rin by auto
  from chain obtain m1 m2 where sg: "vseg V (hd pre) pre m1" "vseg V m1 X m2" "vseg V m2 post 0"
    by (auto simp: vseg_append)
  have m2: "m2 = R" using sg(3) post R_def by (cases post) auto
  define V' where "V' = (V(L \<mapsto> lv\<lparr>p_next := hd (Y @ post)\<rparr>))(R \<mapsto> rv\<lparr>p_prev := last (pre @ Y)\<rparr>)"
  have lastX: "map_option p_next (V (last X)) = Some R" if "X \<noteq> []"
    using vseg_last [OF sg(2) that] m2 by simp
  have lastY: "map_option p_next (V (last Y)) = Some R" if "Y \<noteq> []"
    using vseg_last [of V "hd (Y @ post)" Y "hd post"] ysg that R_def by simp
  have hdX: "V (hd X) \<noteq> None" "hd X \<noteq> L" "hd X \<noteq> R" "last X \<noteq> L" "last X \<noteq> R" "V (last X) \<noteq> None" if "X \<noteq> []"
    using that LX RX vseg_alloc [OF sg(2), of "hd X"] vseg_alloc [OF sg(2), of "last X"] by auto
  have hdY: "V (hd Y) \<noteq> None" "hd Y \<noteq> L" "hd Y \<noteq> R" "last Y \<noteq> L" "last Y \<noteq> R" "V (last Y) \<noteq> None" if "Y \<noteq> []"
    using that LX RX vseg_alloc [OF ysg, of "hd Y"] vseg_alloc [OF ysg, of "last Y"] by auto
  have "swap_view V sx sy = Some V'"
  proof (cases "X = []")
    case True
    then have Y: "Y \<noteq> []" using ne by simp
    then obtain ns nev where ns: "V (hd Y) = Some ns" "p_prev ns = L" "V (last Y) = Some nev" "p_next nev = R"
      using py lastY hdY L_def by (cases "V (hd Y)"; cases "V (last Y)") auto
    show ?thesis
      using True Y cx cy ns lv rv LR hdY [OF Y]
      by (simp add: swap_view_def covers_def vset_def V'_def L_def R_def)
  next
    case X: False
    then obtain os oev where os: "V (hd X) = Some os" "p_prev os = L" "V (last X) = Some oev" "p_next oev = R"
      using px lastX hdX L_def by (cases "V (hd X)"; cases "V (last X)") auto
    show ?thesis
    proof (cases "Y = []")
      case True
      show ?thesis
        using True X cx cy os lv rv LR hdX [OF X]
        by (simp add: swap_view_def covers_def vset_def V'_def L_def R_def)
    next
      case Y: False
      show ?thesis
        using Y X cx cy os lv rv LR hdX [OF X]
        by (simp add: swap_view_def covers_def vset_def V'_def L_def R_def)
    qed
  qed
  moreover note relink_swappable [OF sw L_def R_def lv rv V'_def]
  ultimately show ?thesis by blast
qed

lemma free_frame_fields:
  assumes "free_frame ed ed'"
  shows "ed_size ed' = ed_size ed" "mem ed' = mem ed" "buffers ed' = buffers ed"
    "heap_buffer ed' = heap_buffer ed" "brk ed' = brk ed" "saved_action ed' = saved_action ed"
    "ed_undo ed' = ed_undo ed" "current_action ed' = current_action ed" "next_addr ed' = next_addr ed"
    "alloc_plan ed' = alloc_plan ed" "piece_count ed' = piece_count ed" "clock ed' = clock ed" "buf ed' = buf ed"
proof -
  from assms have e: "free_rest ed' = free_rest ed" by (simp add: free_frame_def)
  show "ed_size ed' = ed_size ed" using arg_cong [OF e, of ed_size] by (simp add: free_rest_def)
  show "mem ed' = mem ed" using arg_cong [OF e, of mem] by (simp add: free_rest_def)
  show "buffers ed' = buffers ed" using arg_cong [OF e, of buffers] by (simp add: free_rest_def)
  show "heap_buffer ed' = heap_buffer ed" using arg_cong [OF e, of heap_buffer] by (simp add: free_rest_def)
  show "brk ed' = brk ed" using arg_cong [OF e, of brk] by (simp add: free_rest_def)
  show "saved_action ed' = saved_action ed" using arg_cong [OF e, of saved_action] by (simp add: free_rest_def)
  show "ed_undo ed' = ed_undo ed" using arg_cong [OF e, of ed_undo] by (simp add: free_rest_def)
  show "current_action ed' = current_action ed" using arg_cong [OF e, of current_action] by (simp add: free_rest_def)
  show "next_addr ed' = next_addr ed" using arg_cong [OF e, of next_addr] by (simp add: free_rest_def)
  show "alloc_plan ed' = alloc_plan ed" using arg_cong [OF e, of alloc_plan] by (simp add: free_rest_def)
  show "piece_count ed' = piece_count ed" using arg_cong [OF e, of piece_count] by (simp add: free_rest_def)
  show "clock ed' = clock ed" using arg_cong [OF e, of clock] by (simp add: free_rest_def)
  show "buf ed' = buf ed" using arg_cong [OF e, of buf] by (simp add: free_rest_def)
qed

lemma calloc_cases:
  assumes "calloc ed = (n, ed')"
  shows "ed' = ed\<lparr>alloc_plan := alloc_plan ed', next_addr := next_addr ed'\<rparr>"
    "n \<noteq> 0 \<Longrightarrow> n = next_addr ed \<and> next_addr ed' = Suc n"
    "next_addr ed \<le> next_addr ed'"
  using assms by (auto simp: calloc_def alloc_ok_def split: list.splits if_splits)

lemma free_frame_action: "free_frame ed ed' \<Longrightarrow> heap_action ed' a = None \<or> heap_action ed' a = heap_action ed a"
  by (simp add: free_frame_def)

lemma free_frame_change: "free_frame ed ed' \<Longrightarrow> heap_change ed' a = None \<or> heap_change ed' a = heap_change ed a"
  by (simp add: free_frame_def)

lemma free_frame_kept: "free_frame ed ed' \<Longrightarrow> kept ed ed'"
  by (simp add: free_frame_def)

lemma free_frame_cache: "free_frame ed ed' \<Longrightarrow> cache ed' = cache ed \<or> cache ed' = 0"
  by (simp add: free_frame_def)

lemma change_alloc_open_post:
  assumes "current_action ed \<noteq> 0" "change_alloc ed = Some (c, ed')" "c \<noteq> 0"
  shows "change_alloc_post ed c ed'"
  using assms
  by (auto simp: change_alloc_post_def change_alloc_def calloc_def alloc_ok_def set_action_def
      get_action_def get_change_def Let_def zero_span_def kept_def pview_def get_piece_def
      split: if_splits Option.bind_splits list.splits prod.splits option.splits)

lemma action_alloc_post:
  assumes "action_alloc ed = Some (a, ed')" "a \<noteq> 0"
  shows "kept ed ed' \<and> next_addr ed \<le> next_addr ed' \<and>
     ed_size ed' = ed_size ed \<and> mem ed' = mem ed \<and> buffers ed' = buffers ed \<and>
     heap_buffer ed' = heap_buffer ed \<and> brk ed' = brk ed \<and> saved_action ed' = saved_action ed \<and>
     (cache ed' = cache ed \<or> cache ed' = 0) \<and>
     current_action ed' = a \<and> ed_undo ed' = a \<and> ed_redo ed' = 0 \<and>
     get_action ed' a = Some \<lparr>a_change = 0, a_next = ed_undo ed, a_time = clock ed\<rparr>"
proof -
  from assms obtain x1 x3 where
    s: "calloc ed = (a, x1)"
       "action_alloc_loop (x1\<lparr>heap_action := (heap_action x1)(a \<mapsto> \<lparr>a_change = 0, a_next = 0, a_time = clock x1\<rparr>)\<rparr>) = Some x3"
       "action_push (x3\<lparr>current_action := a\<rparr>) Undo_stack a = Some ed'"
    by (auto simp: action_alloc_def Let_def split: prod.splits if_splits Option.bind_splits)
  let ?x2 = "x1\<lparr>heap_action := (heap_action x1)(a \<mapsto> \<lparr>a_change = 0, a_next = 0, a_time = clock x1\<rparr>)\<rparr>"
  note cc = calloc_cases [OF s(1)]
  from action_alloc_loop_frame [OF s(2)] have ff: "free_frame ?x2 x3" and r0: "ed_redo x3 = 0" by simp_all
  note f = free_frame_fields [OF ff]
  have x1: "ed_size x1 = ed_size ed" "mem x1 = mem ed" "buffers x1 = buffers ed" "heap_buffer x1 = heap_buffer ed"
     "brk x1 = brk ed" "saved_action x1 = saved_action ed" "cache x1 = cache ed" "ed_undo x1 = ed_undo ed"
     "clock x1 = clock ed" "heap_piece x1 = heap_piece ed"
    by (subst cc(1), simp)+
  from s(3) obtain av where av: "get_action x3 a = Some av"
     "ed' = x3\<lparr>current_action := a, heap_action := (heap_action x3)(a \<mapsto> av\<lparr>a_next := ed_undo x3\<rparr>), ed_undo := a\<rparr>"
    by (auto simp: action_push_def set_action_def get_action_def stack_get_def stack_set_def split: Option.bind_splits option.splits if_splits)
  have "heap_action x3 a = None \<or> heap_action x3 a = heap_action ?x2 a" using ff by (rule free_frame_action)
  then have avv: "av = \<lparr>a_change = 0, a_next = 0, a_time = clock ed\<rparr>"
    using av(1) assms(2) x1 by (auto simp: get_action_def)
  have k: "kept ed x3"
  proof -
    have "pview ?x2 = pview ed" using x1 by (intro pview_cong) simp
    moreover have "kept ?x2 x3" using ff by (rule free_frame_kept)
    ultimately show ?thesis by (simp add: kept_def)
  qed
  have k': "kept ed ed'" using k av(2) by (auto elim: kept_cong)
  have c: "cache x3 = cache ed \<or> cache x3 = 0" using free_frame_cache [OF ff] x1 by simp
  show ?thesis
    using k' f x1 r0 c cc(3) avv assms(2) unfolding av(2)
    by (simp add: get_action_def)
qed

lemma change_alloc_closed_post:
  assumes "current_action ed = 0" "change_alloc ed = Some (c, ed')" "c \<noteq> 0"
  shows "change_alloc_post ed c ed'"
proof -
  from assms obtain a e1 where a: "action_alloc ed = Some (a, e1)" "a \<noteq> 0"
    by (auto simp: change_alloc_def split: Option.bind_splits if_splits prod.splits)
  from assms a obtain y1 av where
    s: "calloc e1 = (c, y1)" "get_action y1 a = Some av"
       "ed' = y1\<lparr>heap_change := (heap_change y1)(c \<mapsto> \<lparr>c_old = zero_span, c_new = zero_span, c_next = a_change av\<rparr>),
                  heap_action := (heap_action y1)(a \<mapsto> av\<lparr>a_change := c\<rparr>)\<rparr>"
    by (auto simp: change_alloc_def Let_def set_action_def get_action_def zero_span_def
        split: Option.bind_splits if_splits prod.splits option.splits)
  note p = action_alloc_post [OF a]
  note cc = calloc_cases [OF s(1)]
  have y1: "ed_size y1 = ed_size e1" "mem y1 = mem e1" "buffers y1 = buffers e1" "heap_buffer y1 = heap_buffer e1"
     "brk y1 = brk e1" "saved_action y1 = saved_action e1" "cache y1 = cache e1" "ed_undo y1 = ed_undo e1"
     "ed_redo y1 = ed_redo e1" "current_action y1 = current_action e1"
     "heap_piece y1 = heap_piece e1" "heap_action y1 = heap_action e1"
    by (subst cc(1), simp)+
  have av: "av = \<lparr>a_change = 0, a_next = ed_undo ed, a_time = clock ed\<rparr>"
    using s(2) p y1 a(2) by (simp add: get_action_def)
  have k: "kept ed ed'" using p y1 s(3) by (auto elim!: kept_cong)
  show ?thesis
    unfolding change_alloc_post_def using k p y1 cc(3) assms(1,3) a(2) av unfolding s(3)
    by (simp add: get_action_def get_change_def)
qed

lemma change_alloc_post:
  assumes "change_alloc ed = Some (c, ed')" "c \<noteq> 0"
  shows "change_alloc_post ed c ed'"
  using assms change_alloc_open_post change_alloc_closed_post by (cases "current_action ed = 0") blast+

lemma cache_insert_miss:
  "cache_contains ed p = Some False \<Longrightarrow> cache_insert ed p off text len = Some (False, ed)"
  by (simp add: cache_insert_def)

lemma insert_midway_steps:
  assumes ins: "editor_insert ed pos text = Some (True, ed')"
    and loc: "piece_get ed pos = Some \<lparr>l_piece = p, l_off = off\<rparr>"
    and miss: "cache_insert ed p off text (strlen text) = Some (False, ed)"
  shows "\<exists>c e2 s e3 pc3. change_alloc ed = Some (c, e2) \<and> c \<noteq> 0 \<and>
      buffer_store e2 text (strlen text) = Some (s, e3) \<and> s \<noteq> 0 \<and> get_piece e3 p = Some pc3 \<and>
      (off \<noteq> p_len pc3 \<longrightarrow>
        (\<exists>b e4 n e5 a e6 pc6 e7 e8 pc8 e9 sn e10 so e11 e12 cv.
          piece_alloc e3 = Some (b, e4) \<and> piece_alloc e4 = Some (n, e5) \<and> piece_alloc e5 = Some (a, e6) \<and>
          b \<noteq> 0 \<and> n \<noteq> 0 \<and> a \<noteq> 0 \<and>
          get_piece e6 p = Some pc6 \<and>
          piece_init e6 b (p_prev pc6) n (p_content pc6) off = Some e7 \<and>
          piece_init e7 n b a s (strlen text) = Some e8 \<and>
          get_piece e8 p = Some pc8 \<and>
          piece_init e8 a n (p_next pc8) (p_content pc8 + off) (p_len pc8 - off) = Some e9 \<and>
          span_init e9 b a = Some sn \<and>
          set_change e9 c (\<lambda>v. v\<lparr>c_new := sn\<rparr>) = Some e10 \<and>
          span_init e10 p p = Some so \<and>
          set_change e10 c (\<lambda>v. v\<lparr>c_old := so\<rparr>) = Some e11 \<and>
          cache_piece e11 n = Some e12 \<and>
          get_change e12 c = Some cv \<and>
          span_swap e12 (c_old cv) (c_new cv) = Some ed')) \<and>
      (off = p_len pc3 \<longrightarrow>
        (\<exists>n e4 pc4 e5 sn e6 so e7 e8 cv.
          piece_alloc e3 = Some (n, e4) \<and> n \<noteq> 0 \<and>
          get_piece e4 p = Some pc4 \<and>
          piece_init e4 n p (p_next pc4) s (strlen text) = Some e5 \<and>
          span_init e5 n n = Some sn \<and>
          set_change e5 c (\<lambda>v. v\<lparr>c_new := sn\<rparr>) = Some e6 \<and>
          span_init e6 0 0 = Some so \<and>
          set_change e6 c (\<lambda>v. v\<lparr>c_old := so\<rparr>) = Some e7 \<and>
          cache_piece e7 n = Some e8 \<and>
          get_change e8 c = Some cv \<and>
          span_swap e8 (c_old cv) (c_new cv) = Some ed'))"
  using ins loc miss
  by (auto simp: editor_insert_def Let_def split: Option.bind_splits if_splits prod.splits)

lemma buffer_append_eff:
  assumes "buffer_append ed b text len = Some (s, ed')"
  shows "heap_piece ed' = heap_piece ed \<and> heap_change ed' = heap_change ed \<and> heap_action ed' = heap_action ed \<and>
     ed_undo ed' = ed_undo ed \<and> ed_redo ed' = ed_redo ed \<and> current_action ed' = current_action ed \<and>
     cache ed' = cache ed \<and> ed_size ed' = ed_size ed \<and> saved_action ed' = saved_action ed \<and>
     pieces ed' = pieces ed \<and> piece_count ed' = piece_count ed \<and> next_addr ed' = next_addr ed \<and>
     alloc_plan ed' = alloc_plan ed \<and>
     mem ed' = store_bytes (mem ed) s (take (unat len) text) \<and>
     (\<exists>bv. get_buffer ed b = Some bv \<and> s = b_content bv + b_pos bv)"
  using assms
  by (auto simp: buffer_append_def set_buffer_def get_buffer_def Let_def split: Option.bind_splits option.splits if_splits)

lemma buffer_store_eff:
  assumes "buffer_store ed text len = Some (s, ed')"
  shows "heap_piece ed' = heap_piece ed \<and> heap_change ed' = heap_change ed \<and> heap_action ed' = heap_action ed \<and>
     ed_undo ed' = ed_undo ed \<and> ed_redo ed' = ed_redo ed \<and> current_action ed' = current_action ed \<and>
     cache ed' = cache ed \<and> ed_size ed' = ed_size ed \<and> saved_action ed' = saved_action ed \<and>
     pieces ed' = pieces ed \<and> piece_count ed' = piece_count ed \<and> next_addr ed \<le> next_addr ed' \<and>
     (s \<noteq> 0 \<longrightarrow> mem ed' = store_bytes (mem ed) s (take (unat len) text) \<and> s = store_dest ed len)"
proof -
  have ba: "buffer_alloc ed len = (b, e1) \<Longrightarrow>
      heap_piece e1 = heap_piece ed \<and> heap_change e1 = heap_change ed \<and> heap_action e1 = heap_action ed \<and>
     ed_undo e1 = ed_undo ed \<and> ed_redo e1 = ed_redo ed \<and> current_action e1 = current_action ed \<and>
     cache e1 = cache ed \<and> ed_size e1 = ed_size ed \<and> saved_action e1 = saved_action ed \<and>
     pieces e1 = pieces ed \<and> piece_count e1 = piece_count ed \<and> next_addr ed \<le> next_addr e1 \<and> mem e1 = mem ed \<and>
     (b \<noteq> 0 \<longrightarrow> (\<exists>bv. get_buffer e1 b = Some bv \<and> b_content bv = brk ed \<and> b_pos bv = 0))" for b e1
    by (auto simp: buffer_alloc_def calloc_def malloc_def alloc_ok_def Let_def get_buffer_def
        split: prod.splits if_splits list.splits)
  show ?thesis
  proof (cases "buffers ed = 0 \<or> (\<exists>bv. get_buffer ed (buffers ed) = Some bv \<and> \<not> b_size bv - b_pos bv \<ge> len)")
    case True
    then obtain b e1 where b: "buffer_alloc ed len = (b, e1)"
      "(if b = 0 then Some (0, e1) else buffer_append e1 b text len) = Some (s, ed')"
      using assms by (cases "buffer_alloc ed len") (auto simp: buffer_store_def buffer_capacity_def Let_def split: Option.bind_splits if_splits)
    have sd: "store_dest ed len = brk ed" using True by (auto simp: store_dest_def)
    show ?thesis
    proof (cases "b = 0")
      case True then show ?thesis using b ba [OF b(1)] by auto
    next
      case False
      then have "buffer_append e1 b text len = Some (s, ed')" using b by simp
      from buffer_append_eff [OF this] ba [OF b(1)] False sd show ?thesis by auto
    qed
  next
    case False
    then obtain bv where bv: "buffers ed \<noteq> 0" "get_buffer ed (buffers ed) = Some bv" "b_size bv - b_pos bv \<ge> len"
      "buffer_append ed (buffers ed) text len = Some (s, ed')"
      using assms by (auto simp: buffer_store_def buffer_capacity_def Let_def split: Option.bind_splits if_splits)
    have sd: "store_dest ed len = b_content bv + b_pos bv" using bv by (simp add: store_dest_def)
    from buffer_append_eff [OF bv(4)] bv sd show ?thesis by auto
  qed
qed

lemma set_change_eff:
  assumes "set_change ed c f = Some ed'"
  shows "\<exists>cv. get_change ed c = Some cv \<and> ed' = ed\<lparr>heap_change := (heap_change ed)(c \<mapsto> f cv)\<rparr>"
  using assms by (auto simp: set_change_def split: option.splits)

lemma cache_piece_eff:
  assumes "cache_piece ed n = Some ed'"
  shows "ed' = ed\<lparr>cache := cache ed'\<rparr>"
  using assms by (auto simp: cache_piece_def Let_def split: if_splits Option.bind_splits)

lemma span_init_ends: "span_init ed s e = Some sp \<Longrightarrow> s_start sp = s \<and> s_end sp = e"
  by (auto simp: span_init_def)

lemma span_init_zero: "span_init ed 0 0 = Some zero_span"
  by (simp add: span_init_def span_init_loop.simps zero_span_def)

lemma pview_upd_field [simp]: "pview (ed\<lparr>heap_change := h\<rparr>) = pview ed" "pview (ed\<lparr>cache := x\<rparr>) = pview ed"
  by (rule pview_cong, simp)+

lemma kept_alive: "kept ed ed' \<Longrightarrow> pview ed' q \<noteq> None \<Longrightarrow> pview ed' q = pview ed q"
  unfolding kept_def by metis

lemma strip_global_eq:
  assumes "strip_global a = strip_global b"
  shows "p_len a = p_len b" "p_prev a = p_prev b" "p_next a = p_next b" "p_content a = p_content b"
  using arg_cong [OF assms, of p_len] arg_cong [OF assms, of p_prev] arg_cong [OF assms, of p_next]
    arg_cong [OF assms, of p_content]
  by simp_all

lemma strip_global_is:
  assumes "strip_global x = v"
  shows "p_len x = p_len v" "p_prev x = p_prev v" "p_next x = p_next v" "p_content x = p_content v"
  using assms [symmetric] by simp_all

lemma view_fields:
  assumes "get_piece e q = Some x" "pview e q = Some (strip_global y)"
  shows "p_len x = p_len y" "p_prev x = p_prev y" "p_next x = p_next y" "p_content x = p_content y"
proof -
  have "strip_global x = strip_global y" using assms by (simp add: pview_def)
  then show "p_len x = p_len y" "p_prev x = p_prev y" "p_next x = p_next y" "p_content x = p_content y"
    by (rule strip_global_eq)+
qed

lemma vset_dom: "vset V x f = Some V' \<Longrightarrow> (V' q = None \<longleftrightarrow> V q = None)"
  by (auto simp: vset_def split: option.splits if_splits)

lemma swap_view_dom:
  assumes "swap_view V old new = Some V'"
  shows "V' q = None \<longleftrightarrow> V q = None"
proof -
  have two: "(W q = None \<longleftrightarrow> V q = None)"
    if "vset V x f = Some V1" "vset V1 y g = Some W" for x f V1 y g W
    using vset_dom [OF that(1), of q] vset_dom [OF that(2), of q] by simp
  show ?thesis
    using assms
    by (auto simp: swap_view_def split: if_splits Option.bind_splits dest: two)
qed

lemma swap_view_outside:
  assumes v: "swap_view V old new = Some V'" and nz: "s_len old \<noteq> 0"
    and os: "V (s_start old) = Some os" and oe: "V (s_end old) = Some oe"
    and ne: "p_prev os \<noteq> s_end old"
  shows "\<forall>q. q \<noteq> p_prev os \<longrightarrow> q \<noteq> p_next oe \<longrightarrow> V' q = V q"
proof (cases "s_len new = 0")
  case True
  then show ?thesis using v nz os oe ne
    by (auto simp: swap_view_def vset_def split: Option.bind_splits option.splits if_splits)
next
  case False
  then show ?thesis using v nz os oe ne
    by (auto simp: swap_view_def vset_def split: Option.bind_splits option.splits if_splits)
qed

lemma span_swap_outside:
  assumes sw: "span_swap ed old new = Some ed'" and nz: "s_len old \<noteq> 0"
    and os: "pview ed (s_start old) = Some os" and oe: "pview ed (s_end old) = Some oe"
    and ne: "p_prev os \<noteq> s_end old"
  shows "\<forall>q. q \<noteq> p_prev os \<longrightarrow> q \<noteq> p_next oe \<longrightarrow> pview ed' q = pview ed q"
  using swap_view_outside [OF _ nz os oe ne] span_swap_Some_view [OF sw] by blast

lemma load_store_same:
  assumes "length bs < 2 ^ 64"
  shows "load_bytes (store_bytes m s bs) s (length bs) = bs"
proof -
  have "unat (word_of_nat i :: 64 word) = i" if "i < length bs" for i
    using that assms by (simp add: unat_of_nat)
  then show ?thesis
    by (auto simp: load_bytes_def store_bytes_def intro!: nth_equalityI)
qed

text \<open>The result of a midway insert that returns true. The insertion is strictly inside a piece
  and the cache does not take it; the old piece's neighbours are allocated pieces, the first of
  them is not the piece itself, and addresses from \<open>next_addr\<close> on are unused. Then exactly three
  pieces have been allocated, at consecutive addresses: \<open>before\<close> holds the first \<open>off\<close> bytes of
  the old piece's data, \<open>new\<close> holds the inserted text, \<open>after\<close> holds the remaining
  \<open>p_len - off\<close> bytes; they are linked in this order between the old piece's neighbours. The
  recorded change has the new span \<open>before..after\<close> and the old span made of the original piece
  alone.\<close>

lemma insert_midway_result:
  assumes loc: "piece_get ed pos = Some \<lparr>l_piece = p, l_off = off\<rparr>"
    and pc: "get_piece ed p = Some pc" and off: "0 < off" "off < p_len pc"
    and miss: "cache_insert ed p off text (strlen text) = Some (False, ed)"
    and ins: "editor_insert ed pos text = Some (True, ed')"
    and fresh: "\<forall>q\<ge>next_addr ed. heap_piece ed q = None"
    and nb: "get_piece ed (p_prev pc) \<noteq> None" "get_piece ed (p_next pc) \<noteq> None" "p_prev pc \<noteq> p"
    and tl: "length text < 2 ^ 64"
  shows "\<exists>b B N A av cv.
      (\<forall>q. (get_piece ed q = None \<and> get_piece ed' q \<noteq> None) \<longleftrightarrow> q \<in> {b, Suc b, Suc (Suc b)}) \<and>
      get_piece ed' b = Some B \<and> get_piece ed' (Suc b) = Some N \<and> get_piece ed' (Suc (Suc b)) = Some A \<and>
      p_content B = p_content pc \<and> p_len B = off \<and> p_prev B = p_prev pc \<and> p_next B = Suc b \<and>
      p_len N = strlen text \<and> load_bytes (mem ed') (p_content N) (length text) = text \<and>
      p_prev N = b \<and> p_next N = Suc (Suc b) \<and>
      p_content A = p_content pc + off \<and> p_len A = p_len pc - off \<and>
      p_prev A = Suc b \<and> p_next A = p_next pc \<and>
      get_action ed' (current_action ed') = Some av \<and> get_change ed' (a_change av) = Some cv \<and>
      c_new cv = \<lparr>s_start = b, s_end = Suc (Suc b), s_len = off + strlen text + (p_len pc - off)\<rparr> \<and>
      c_old cv = \<lparr>s_start = p, s_end = p, s_len = p_len pc\<rparr>"
proof -
  from insert_midway_steps [OF ins loc miss] obtain c e2 s e3 pc3 where
    st: "change_alloc ed = Some (c, e2)" "c \<noteq> 0" "buffer_store e2 text (strlen text) = Some (s, e3)" "s \<noteq> 0"
        "get_piece e3 p = Some pc3"
    and br: "off \<noteq> p_len pc3 \<longrightarrow>
        (\<exists>b e4 n e5 a e6 pc6 e7 e8 pc8 e9 sn e10 so e11 e12 cv.
          piece_alloc e3 = Some (b, e4) \<and> piece_alloc e4 = Some (n, e5) \<and> piece_alloc e5 = Some (a, e6) \<and>
          b \<noteq> 0 \<and> n \<noteq> 0 \<and> a \<noteq> 0 \<and>
          get_piece e6 p = Some pc6 \<and>
          piece_init e6 b (p_prev pc6) n (p_content pc6) off = Some e7 \<and>
          piece_init e7 n b a s (strlen text) = Some e8 \<and>
          get_piece e8 p = Some pc8 \<and>
          piece_init e8 a n (p_next pc8) (p_content pc8 + off) (p_len pc8 - off) = Some e9 \<and>
          span_init e9 b a = Some sn \<and>
          set_change e9 c (\<lambda>v. v\<lparr>c_new := sn\<rparr>) = Some e10 \<and>
          span_init e10 p p = Some so \<and>
          set_change e10 c (\<lambda>v. v\<lparr>c_old := so\<rparr>) = Some e11 \<and>
          cache_piece e11 n = Some e12 \<and>
          get_change e12 c = Some cv \<and>
          span_swap e12 (c_old cv) (c_new cv) = Some ed')"
    by (elim exE conjE) (rule that)
  note cp = change_alloc_post [OF st(1,2), unfolded change_alloc_post_def]
  note bs = buffer_store_eff [OF st(3)]
  have k2: "kept ed e2" using cp by simp
  have v3: "pview e3 = pview e2" using bs by (intro pview_cong) simp
  have pv: "pview ed p = Some (strip_global pc)" using pc by (rule get_piece_Some_view)
  have "pview e3 p \<noteq> None" using st(5) by (simp add: pview_def)
  then have "pview e2 p \<noteq> None" using v3 by simp
  then have p3: "pview e3 p = pview ed p" using kept_alive [OF k2, of p] v3 by simp
  then have "pview e3 p = Some (strip_global pc)" using pv by simp
  note pc3 = view_fields [OF st(5) this]
  have ne: "off \<noteq> p_len pc3" using off pc3 by auto
  from br [rule_format, OF ne] obtain b e4 n e5 a e6 pc6 e7 e8 pc8 e9 sn e10 so e11 e12 cv where
    s: "piece_alloc e3 = Some (b, e4)" "piece_alloc e4 = Some (n, e5)" "piece_alloc e5 = Some (a, e6)"
       "b \<noteq> 0" "n \<noteq> 0" "a \<noteq> 0"
       "get_piece e6 p = Some pc6"
       "piece_init e6 b (p_prev pc6) n (p_content pc6) off = Some e7"
       "piece_init e7 n b a s (strlen text) = Some e8"
       "get_piece e8 p = Some pc8"
       "piece_init e8 a n (p_next pc8) (p_content pc8 + off) (p_len pc8 - off) = Some e9"
       "span_init e9 b a = Some sn"
       "set_change e9 c (\<lambda>v. v\<lparr>c_new := sn\<rparr>) = Some e10"
       "span_init e10 p p = Some so"
       "set_change e10 c (\<lambda>v. v\<lparr>c_old := so\<rparr>) = Some e11"
       "cache_piece e11 n = Some e12"
       "get_change e12 c = Some cv"
       "span_swap e12 (c_old cv) (c_new cv) = Some ed'"
    by (elim exE conjE) (rule that)
  note a1 = piece_alloc_view [OF s(1) s(4)]
  note a2 = piece_alloc_view [OF s(2) s(5)]
  note a3 = piece_alloc_view [OF s(3) s(6)]
  have n: "n = Suc b" "a = Suc (Suc b)" using a1 a2 a3 by simp_all
  have lim: "next_addr ed \<le> b" using cp bs a1 by simp
  have old: "q < b" if "pview e3 q \<noteq> None" for q
  proof -
    have "pview ed q \<noteq> None" using kept_alive [OF k2, of q] that v3 by metis
    then have "heap_piece ed q \<noteq> None" by (auto simp: pview_def get_piece_def split: if_splits)
    then have "q < next_addr ed" using fresh by (meson not_le)
    then show ?thesis using lim by simp
  qed
  have pb: "p < b" using old [of p] st(5) by (simp add: pview_def)
  let ?L = "p_prev pc" and ?R = "p_next pc"
  have L3: "pview ed ?L \<noteq> None" "pview ed ?R \<noteq> None" using nb by (simp_all add: pview_def)
  have Lb: "?L < b" "?R < b"
  proof -
    have "heap_piece ed ?L \<noteq> None" "heap_piece ed ?R \<noteq> None" using nb by (auto simp: get_piece_def split: if_splits)
    then have "?L < next_addr ed" "?R < next_addr ed" using fresh by (meson not_le)+
    then show "?L < b" "?R < b" using lim by simp_all
  qed
  define V3 where "V3 = pview e3"
  have V6: "pview e6 = V3(b \<mapsto> fresh_view (piece_count e3 + 1), n \<mapsto> fresh_view (piece_count e4 + 1),
                          a \<mapsto> fresh_view (piece_count e5 + 1))"
    using a1 a2 a3 by (simp add: V3_def)
  have p6: "pview e6 p = Some (strip_global pc)" using V6 pb n p3 pv by (simp add: V3_def)
  note pc6 = view_fields [OF s(7) p6]
  note i1 = piece_init_view [OF s(8)]
  note i2 = piece_init_view [OF s(9)]
  have p8: "pview e8 p = Some (strip_global pc)" using i1 i2 p6 pb n by simp
  note pc8 = view_fields [OF s(10) p8]
  note i3 = piece_init_view [OF s(11)]
  define B where "B = (fresh_view (piece_count e3 + 1))\<lparr>p_prev := ?L, p_next := n, p_content := p_content pc, p_len := off\<rparr>"
  define N where "N = (fresh_view (piece_count e4 + 1))\<lparr>p_prev := b, p_next := a, p_content := s, p_len := strlen text\<rparr>"
  define A where "A = (fresh_view (piece_count e5 + 1))\<lparr>p_prev := n, p_next := ?R, p_content := p_content pc + off, p_len := p_len pc - off\<rparr>"
  have V9: "pview e9 = V3(b \<mapsto> B, n \<mapsto> N, a \<mapsto> A)"
    using i1 i2 i3 V6 n pc6 pc8 by (auto simp: B_def N_def A_def fun_eq_iff)
  obtain Bp Np Ap where g9: "get_piece e9 b = Some Bp" "strip_global Bp = B"
      "get_piece e9 n = Some Np" "strip_global Np = N" "get_piece e9 a = Some Ap" "strip_global Ap = A"
    using V9 n view_Some_get_piece [of e9 b B] view_Some_get_piece [of e9 n N] view_Some_get_piece [of e9 a A]
    by auto
  have fB: "p_next Bp = n" "p_len Bp = off" using strip_global_is [OF g9(2)] by (simp_all add: B_def)
  have fN: "p_next Np = a" "p_len Np = strlen text" using strip_global_is [OF g9(4)] by (simp_all add: N_def)
  have fA: "p_len Ap = p_len pc - off" using strip_global_is [OF g9(6)] by (simp_all add: A_def)
  have sn: "sn = \<lparr>s_start = b, s_end = a, s_len = off + strlen text + (p_len pc - off)\<rparr>"
    using s(12) g9 fB fN fA n s(4)
    by (simp add: span_init_def span_init_loop.simps)
  from set_change_eff [OF s(13)] obtain cv9 where e10: "get_change e9 c = Some cv9"
      "e10 = e9\<lparr>heap_change := (heap_change e9)(c \<mapsto> cv9\<lparr>c_new := sn\<rparr>)\<rparr>" by blast
  have v10: "pview e10 = pview e9" unfolding e10(2) by simp
  have pv10: "pview e10 p = Some (strip_global pc)" using V9 pb n p3 pv v10 by (simp add: V3_def)
  then obtain pc10 where p10': "get_piece e10 p = Some pc10" using view_Some_get_piece by blast
  have p10: "get_piece e10 p = Some pc10" "p_len pc10 = p_len pc"
    using p10' view_fields [OF p10' pv10] by simp_all
  have so: "so = \<lparr>s_start = p, s_end = p, s_len = p_len pc\<rparr>"
    using s(14) p10 by (auto simp: span_init_def span_init_loop.simps get_piece_def split: if_splits)
  from set_change_eff [OF s(15)] obtain cv10 where e11: "get_change e10 c = Some cv10"
      "e11 = e10\<lparr>heap_change := (heap_change e10)(c \<mapsto> cv10\<lparr>c_old := so\<rparr>)\<rparr>" by blast
  note e12 = cache_piece_eff [OF s(16)]
  have cv: "c_new cv = sn" "c_old cv = so"
    using s(17) e10 e11 st(2) by (subst (asm) e12, auto simp: get_change_def)+
  have v12: "pview e12 = pview e9" by (subst e12) (simp add: e11(2) e10(2))
  note sw = span_swap_Some_view [OF s(18)]
  have sonz: "s_len (c_old cv) \<noteq> 0" using cv so off by auto
  have p12: "pview e12 p = Some (strip_global pc)" using v12 V9 pb n p3 pv by (simp add: V3_def)
  have out: "\<forall>q. q \<noteq> ?L \<longrightarrow> q \<noteq> ?R \<longrightarrow> pview ed' q = pview e12 q"
    using span_swap_outside [OF s(18) sonz, of "strip_global pc" "strip_global pc"] p12 cv so nb(3) by simp
  have fin: "pview ed' b = Some B" "pview ed' n = Some N" "pview ed' a = Some A"
    using out v12 V9 Lb n by auto
  have dom: "pview ed' q = None \<longleftrightarrow> pview e12 q = None" for q
    using swap_view_dom [OF conjunct1 [OF sw]] .
  have three: "(get_piece ed q = None \<and> get_piece ed' q \<noteq> None) \<longleftrightarrow> q \<in> {b, Suc b, Suc (Suc b)}" for q
  proof
    assume h: "get_piece ed q = None \<and> get_piece ed' q \<noteq> None"
    then have "pview ed' q \<noteq> None" by simp
    then have "pview e9 q \<noteq> None" using dom [of q] v12 by metis
    show "q \<in> {b, Suc b, Suc (Suc b)}"
    proof (rule ccontr)
      assume "q \<notin> {b, Suc b, Suc (Suc b)}"
      then have "pview e3 q \<noteq> None" using \<open>pview e9 q \<noteq> None\<close> V9 n by (auto simp: V3_def)
      then have "pview ed q \<noteq> None" using kept_alive [OF k2, of q] v3 by metis
      then show False using h by simp
    qed
  next
    assume h: "q \<in> {b, Suc b, Suc (Suc b)}"
    then have "next_addr ed \<le> q" using lim by auto
    then have "get_piece ed q = None" using fresh by (simp add: get_piece_def)
    moreover have "get_piece ed' q \<noteq> None" using h fin n by (auto dest: view_Some_get_piece)
    ultimately show "get_piece ed q = None \<and> get_piece ed' q \<noteq> None" by simp
  qed
  obtain B' N' A' where fin': "get_piece ed' b = Some B'" "strip_global B' = B"
      "get_piece ed' n = Some N'" "strip_global N' = N" "get_piece ed' a = Some A'" "strip_global A' = A"
    using fin view_Some_get_piece [of ed' b B] view_Some_get_piece [of ed' n N] view_Some_get_piece [of ed' a A]
    by auto
  have obs12: "heap_change ed' = heap_change e12" "heap_action ed' = heap_action e12"
      "current_action ed' = current_action e12" "mem ed' = mem e12"
    using sw by (auto simp: obs_def)
  have o9: "obs e9 = obs e3" using a1 a2 a3 i1 i2 i3 by simp
  have chain: "heap_action e12 = heap_action e2" "current_action e12 = current_action e2" "mem e12 = mem e3"
    using o9 bs by (subst e12, simp add: e11(2) e10(2) obs_def)+
  from cp obtain av cn where av: "get_action e2 (current_action e2) = Some av" "a_change av = c" by blast
  have act: "get_action ed' (current_action ed') = Some av"
    using av obs12 chain by (auto simp: get_action_def split: if_splits)
  have chg: "get_change ed' (a_change av) = Some cv"
    using s(17) obs12 av by (auto simp: get_change_def split: if_splits)
  have memN: "load_bytes (mem ed') s (length text) = text"
  proof -
    have "unat (strlen text) = length text" using tl by (simp add: strlen_def unat_of_nat)
    then have "mem ed' = store_bytes (mem e2) s text" using bs st(4) obs12 chain by simp
    then show ?thesis using load_store_same [OF tl] by simp
  qed
  have fB': "p_content B' = p_content pc" "p_len B' = off" "p_prev B' = p_prev pc" "p_next B' = Suc b"
    using strip_global_is [OF fin'(2)] n by (simp_all add: B_def)
  have fN': "p_len N' = strlen text" "p_content N' = s" "p_prev N' = b" "p_next N' = Suc (Suc b)"
    using strip_global_is [OF fin'(4)] n by (simp_all add: N_def)
  have fA': "p_content A' = p_content pc + off" "p_len A' = p_len pc - off" "p_prev A' = Suc b" "p_next A' = p_next pc"
    using strip_global_is [OF fin'(6)] n by (simp_all add: A_def)
  show ?thesis
    apply (rule exI [of _ b], rule exI [of _ B'], rule exI [of _ N'], rule exI [of _ A'],
           rule exI [of _ av], rule exI [of _ cv])
    using three fin' n fB' fN' fA' act chg cv sn so memN
    by simp
qed

lemma insert_midway_result_example:
  "piece_get abcdef_document 3 = Some \<lparr>l_piece = 3, l_off = 3\<rparr> \<and>
   map_option p_len (get_piece abcdef_document 3) = Some 6 \<and>
   editor_insert abcdef_document 3 ''XYZ'' = Some (True, midway_document) \<and>
   (\<exists>b B. get_piece abcdef_document b = None \<and> get_piece midway_document b = Some B \<and>
      p_len B = 3 \<and> p_next B = Suc b)"
proof -
  obtain pc where pc: "get_piece abcdef_document 3 = Some pc" and len: "p_len pc = 6"
    and nb: "p_prev pc = 1" "p_next pc = 2"
    by (simp add: abcdef_document_def editor_defs loop_simps Let_def)
  have loc: "piece_get abcdef_document 3 = Some \<lparr>l_piece = 3, l_off = 3\<rparr>"
    by (simp add: abcdef_document_def editor_defs loop_simps Let_def)
  have off: "(0 :: size_t) < 3" "(3 :: size_t) < p_len pc"
    using len by simp_all
  have miss: "cache_insert abcdef_document 3 3 ''XYZ'' (strlen ''XYZ'') = Some (False, abcdef_document)"
    by (simp add: abcdef_document_def editor_defs loop_simps Let_def)
  have ins: "editor_insert abcdef_document 3 ''XYZ'' = Some (True, midway_document)"
    by (simp add: midway_document_def abcdef_document_def editor_defs loop_simps Let_def)
  have fresh: "\<forall>q\<ge>next_addr abcdef_document. heap_piece abcdef_document q = None"
    by (simp add: abcdef_document_def editor_defs loop_simps Let_def)
  have n1: "get_piece abcdef_document (p_prev pc) \<noteq> None"
    unfolding nb by (simp add: abcdef_document_def editor_defs loop_simps Let_def)
  have n2: "get_piece abcdef_document (p_next pc) \<noteq> None"
    unfolding nb by (simp add: abcdef_document_def editor_defs loop_simps Let_def)
  have n3: "p_prev pc \<noteq> 3" unfolding nb by simp
  have tl: "length ''XYZ'' < 2 ^ 64" by simp
  from insert_midway_result [OF loc pc off miss ins fresh n1 n2 n3 tl]
  obtain b B where "get_piece abcdef_document b = None" "get_piece midway_document b = Some B"
    "p_len B = 3" "p_next B = Suc b"
    by blast
  with loc pc len ins show ?thesis by auto
qed

section \<open>An Action that is undone while it is the current action\<close>

text \<open>
  C3. After an undo that returns true, the next successful insert should leave the redo stack
  empty and the undone Action freed. \<open>editor_undo\<close> moves the Action to the redo stack but leaves
  it the current action, so \<open>change_alloc\<close> starts no new Action and drains nothing: after
  \<open>insert(0, "abc"); undo(); insert(0, "x")\<close> the redo stack still holds the Action (address 3),
  which is not freed and has received the Change of the second insert (address 7) at the head of
  its change list.
\<close>

theorem redo_stack_kept_after_undo:
  "kept_redo_scenario = Some ([True, True, True], 3, 3, Some 4, Some 7, Some ''x'')"
  by (simp add: kept_redo_scenario_def editor_defs loop_simps Let_def upt_rec)

text \<open>
  With a snapshot before the undo no action is open, and the next insert drains the redo stack:
  the stack is empty, the undone Action is freed, and so are the first and the last piece of
  its Change's new span; the middle piece of the midway insert stays allocated.
\<close>

lemma redo_drained_after_snapshot:
  "drained_redo_scenario =
     Some ([True, True, True], 4, 0, [False, True, False], False, Some ''qabcdef'')"
  by (simp add: drained_redo_scenario_def editor_defs loop_simps Let_def upt_rec
      unsigned_minus_1_eq_mask mask_eq_exp_minus_1)

text \<open>
  C6. An insert strictly inside a piece, not taken by the cache, should split the piece in
  three. After \<open>insert(0, "abc"); undo(); insert(0, "hello"); snapshot()\<close> the document is
  "hello" and position 2 lies inside its piece (offset 2 of 5), the cache does not take the
  insert; \<open>insert(2, "X")\<close> then starts a new Action, whose redo drain frees the undone Action
  together with the piece of "hello" that this Action had received, and reads the freed piece:
  it has no result.
\<close>

theorem insert_reads_freed_piece:
  "stale_piece_scenario = Some ([True, True, True], 2, 5, False, Some ''hello'', None)"
  by (simp add: stale_piece_scenario_def editor_defs loop_simps Let_def upt_rec)

text \<open>
  C1. An edit, a snapshot and an undo should give back the document of before the edit. In the
  state reached by \<open>load "abc"; insert(3, "x"); undo(); insert(3, "hello"); snapshot()\<close> the
  document is "abchello"; the edit \<open>insert(0, "y")\<close> returns true, and its redo drain frees the
  piece of "hello", which is on the chain; after \<open>snapshot(); undo()\<close>, which returns true, the
  chain still runs through the freed piece and the document cannot be read.
\<close>

theorem undo_after_drain_loses_document:
  "undo_after_drain_scenario = Some ([True, True, True, True, True], Some ''abchello'', None)"
  by (simp add: undo_after_drain_scenario_def editor_defs loop_simps Let_def upt_rec
      unsigned_minus_1_eq_mask mask_eq_exp_minus_1)

section \<open>Allocation failure in insert and delete\<close>






lemma calloc_fail: "alloc_plan ed = False # rest \<Longrightarrow> calloc ed = (0, ed\<lparr>alloc_plan := rest\<rparr>)"
  by (simp add: calloc_def alloc_ok_def)

lemma change_alloc_first_fails:
  "alloc_plan ed = False # rest \<Longrightarrow> change_alloc ed = Some (0, ed\<lparr>alloc_plan := rest\<rparr>)"
  by (simp add: change_alloc_def action_alloc_def calloc_fail)

lemma calloc_zero: "calloc ed = (0, ed') \<Longrightarrow> next_addr ed \<noteq> 0 \<Longrightarrow> ed' = ed\<lparr>alloc_plan := alloc_plan ed'\<rparr>"
  by (auto simp: calloc_def alloc_ok_def split: list.splits if_splits)




























end
